theory Spec2Isabelle
  imports Main "HOL-Library.Word"
begin

section \<open>Errors and read results\<close>

text \<open>
  The sentinel errors of \<^verbatim>\<open>reader.go\<close>, together with \<^verbatim>\<open>io.EOF\<close>.
  \<open>errOther\<close> stands for any other error value a collaborator may return (an I/O error,
  a decoder initialisation error); \<open>nilDeref\<close> is Go's run-time panic on a nil pointer.
\<close>

datatype error =
    EOF
  | errShortFile
  | errInvalidFileBlock
  | errUnexpectedArcEnd
  | errBadFileChecksum
  | errOther nat
  | nilDeref

type_synonym byte = "8 word"

text \<open>
  \<^verbatim>\<open>Read(p []byte) (n int, err error)\<close>: a call is given \<open>len(p)\<close> and answers with the
  bytes it stored in \<open>p[0:n]\<close> and the error (\<open>None\<close> for \<open>nil\<close>).
\<close>

type_synonym read_result = "byte list \<times> error option"

section \<open>Reading a stream to exhaustion\<close>

text \<open>
  The loop of every consumer of an \<^verbatim>\<open>io.Reader\<close> (\<^verbatim>\<open>io.Copy\<close>, \<^verbatim>\<open>io.ReadAll\<close>): call
  \<open>Read\<close> with a buffer of \<open>k\<close> bytes until it reports an error, collecting the bytes.
  A reader that keeps answering \<open>(0, nil)\<close> makes the loop run forever: that is the
  value \<open>None\<close>.
\<close>

partial_function (option) readAll ::
  "('s \<Rightarrow> nat \<Rightarrow> read_result \<times> 's) \<Rightarrow> nat \<Rightarrow> 's \<Rightarrow> byte list
     \<Rightarrow> ((byte list \<times> error) \<times> 's) option" where
  "readAll rd k s acc =
     (case rd s k of
        ((bs, Some e), s') \<Rightarrow> Some ((acc @ bs, e), s')
      | ((bs, None), s') \<Rightarrow> readAll rd k s' (acc @ bs))"

section \<open>A plain byte source\<close>

text \<open>
  A source holding a finite sequence of bytes. \<^verbatim>\<open>io.Reader\<close> leaves two things to the
  implementation, and both are parameters here: how many bytes one call hands out
  (\<open>maxRead\<close>, with \<open>0\<close> for no limit of its own) and whether the end of the data is
  reported together with the last bytes (\<open>eagerEOF\<close>) or by a later call that returns
  no bytes. \<^verbatim>\<open>bytes.Reader\<close> is \<open>chunk_Read 0 False\<close>.
\<close>

definition chunk_Read :: "nat \<Rightarrow> bool \<Rightarrow> byte list \<Rightarrow> nat \<Rightarrow> read_result \<times> byte list" where
  "chunk_Read maxRead eagerEOF xs k =
     (if xs = [] then (([], Some EOF), [])
      else let n = min k (if maxRead = 0 then length xs else min maxRead (length xs));
               bs = take n xs;
               rest = drop n xs
           in ((bs, if rest = [] \<and> eagerEOF then Some EOF else None), rest))"

record byteSource =
  src_data :: "byte list"
  src_maxRead :: nat
  src_eagerEOF :: bool

definition source_Read :: "byteSource \<Rightarrow> nat \<Rightarrow> unit \<Rightarrow> read_result \<times> byteSource \<times> unit" where
  "source_Read s k u =
     (let (res, rest) = chunk_Read (src_maxRead s) (src_eagerEOF s) (src_data s) k
      in (res, s\<lparr>src_data := rest\<rparr>, u))"

section \<open>The bounded reader\<close>

text \<open>
  \<^verbatim>\<open>type limitedReader struct { r io.Reader; n int64; shortErr error }\<close>.
  The inner reader is an interface value: its \<open>Read\<close> is the parameter \<open>rd\<close>, which works
  on the inner reader's own state \<open>'r\<close> and on whatever state \<open>'w\<close> it shares with others.
\<close>

datatype 'r limitedReader = LimitedReader (l_r: 'r) (l_n: int) (shortErr: error)

definition limited_Read ::
  "('r \<Rightarrow> nat \<Rightarrow> 'w \<Rightarrow> read_result \<times> 'r \<times> 'w) \<Rightarrow> 'r limitedReader \<Rightarrow> nat \<Rightarrow> 'w
     \<Rightarrow> read_result \<times> 'r limitedReader \<times> 'w" where
  "limited_Read rd l k w =
     (if l_n l \<le> 0 then (([], Some EOF), l, w)
      else
        let k' = (if int k > l_n l then nat (l_n l) else k) in
        case rd (l_r l) k' w of ((bs, err), r', w') \<Rightarrow>
          let n' = l_n l - int (length bs) in
          if err = Some EOF \<and> n' > 0
          then ((bs, Some (shortErr l)), LimitedReader r' n' (shortErr l), w')
          else ((bs, err), LimitedReader r' n' (shortErr l), w'))"

definition limitReader :: "'r \<Rightarrow> int \<Rightarrow> error \<Rightarrow> 'r limitedReader" where
  "limitReader r n err = LimitedReader r n err"

text \<open>The bounded reader over a plain byte source, as one reader with one state.\<close>

definition limited_source_Read ::
  "byteSource limitedReader \<Rightarrow> nat \<Rightarrow> read_result \<times> byteSource limitedReader" where
  "limited_source_Read l k = (case limited_Read source_Read l k () of (res, l', u) \<Rightarrow> (res, l'))"

section \<open>File headers and the capabilities they carry\<close>

text \<open>\<^verbatim>\<open>type FileHeader struct\<close>; the three times are kept as numbers.\<close>

record FileHeader =
  Name :: string
  IsDir :: bool
  HostOS :: byte
  Attributes :: int
  PackedSize :: int
  UnPackedSize :: int
  UnKnownSize :: bool
  ModificationTime :: int
  CreationTime :: int
  AccessTime :: int
  Version :: int

text \<open>
  Modelled from the spec: the checksum sink (\<^verbatim>\<open>fileChecksum\<close>, an interface whose
  implementations are not in \<^verbatim>\<open>reader.go\<close>). It accepts any number of writes, in order, and
  its validity query says whether what was written matches the reference value the
  implementation holds; the query does not change it. The reference value and the digest
  are the predicate \<open>ck_accepts\<close> on the bytes written so far.
\<close>

record fileChecksum =
  ck_accepts :: "byte list \<Rightarrow> bool"
  ck_written :: "byte list"

definition valid :: "fileChecksum \<Rightarrow> bool" where
  "valid c = ck_accepts c (ck_written c)"

definition cksum_Write :: "fileChecksum \<Rightarrow> byte list \<Rightarrow> fileChecksum" where
  "cksum_Write c bs = c\<lparr>ck_written := ck_written c @ bs\<rparr>"

text \<open>
  Modelled from the spec: the decoder selector (\<^verbatim>\<open>decoder\<close>, an interface declared
  elsewhere). The decoding algorithm is out of scope; what the pipeline needs of it is
  whether initialisation with a window size and a reset flag is refused, and a function
  from the dictionary (the bytes decoded since the last reset) and the next packed byte to
  the decoded byte.
\<close>

record decoder =
  dec_initErr :: "nat \<Rightarrow> bool \<Rightarrow> error option"
  dec_byte :: "byte list \<Rightarrow> byte \<Rightarrow> byte"

text \<open>
  \<^verbatim>\<open>type fileBlockHeader struct\<close>, which embeds \<^verbatim>\<open>FileHeader\<close>. The field \<^verbatim>\<open>last\<close> is
  \<open>lastBlock\<close> here, and \<^verbatim>\<open>first\<close> is \<open>firstBlock\<close>.
\<close>

record fileBlockHeader = FileHeader +
  firstBlock :: bool
  lastBlock :: bool
  solid :: bool
  winSize :: nat
  cksum :: "fileChecksum option"
  decoder :: "decoder option"
  key :: "byte list"
  iv :: "byte list"

section \<open>The block source\<close>

text \<open>
  Modelled from the spec: the block source (\<^verbatim>\<open>fileBlockReader\<close>, an interface; the
  archive parsers that implement it are not part of \<^verbatim>\<open>reader.go\<close>). It supplies, on demand,
  the next block's record and the raw bytes of the current block, and knows whether the
  archive is solid. Here it is the list of what \<^verbatim>\<open>next()\<close> will answer, in order (a block
  with its payload, or an error), and the unread bytes of the current block. \<^verbatim>\<open>next()\<close>
  abandons the unread bytes of the block it leaves, and reports \<^verbatim>\<open>io.EOF\<close> when the list
  is empty. Reading hands out the current block's bytes as \<open>chunk_Read\<close> does. The
  operations \<^verbatim>\<open>reset\<close> and \<^verbatim>\<open>version\<close> are not called by \<^verbatim>\<open>reader.go\<close>.
\<close>

record block =
  b_hdr :: fileBlockHeader
  b_data :: "byte list"

record fileBlockReader =
  fbr_cur :: "byte list"
  fbr_blocks :: "(error + block) list"
  fbr_solid :: bool
  fbr_maxRead :: nat
  fbr_eagerEOF :: bool

definition fbr_Read :: "fileBlockReader \<Rightarrow> nat \<Rightarrow> read_result \<times> fileBlockReader" where
  "fbr_Read s k =
     (case chunk_Read (fbr_maxRead s) (fbr_eagerEOF s) (fbr_cur s) k of
        (res, rest) \<Rightarrow> (res, s\<lparr>fbr_cur := rest\<rparr>))"

definition fbr_next :: "fileBlockReader \<Rightarrow> (error + fileBlockHeader) \<times> fileBlockReader" where
  "fbr_next s =
     (case fbr_blocks s of
        [] \<Rightarrow> (Inl EOF, s\<lparr>fbr_cur := []\<rparr>)
      | Inl e # bs \<Rightarrow> (Inl e, s\<lparr>fbr_cur := [], fbr_blocks := bs\<rparr>)
      | Inr b # bs \<Rightarrow> (Inr (b_hdr b), s\<lparr>fbr_cur := b_data b, fbr_blocks := bs\<rparr>))"

definition isSolid :: "fileBlockReader \<Rightarrow> bool" where
  "isSolid s = fbr_solid s"

section \<open>The block-chain walker\<close>

text \<open>\<^verbatim>\<open>type packedFileReader struct { r fileBlockReader; h *fileBlockHeader }\<close>\<close>

record packedFileReader =
  pf_r :: fileBlockReader
  pf_h :: "fileBlockHeader option"

text \<open>
  \<^verbatim>\<open>func (f *packedFileReader) nextBlockInFile() error\<close>. The test
  \<^verbatim>\<open>h.first || h.Name != f.h.Name\<close> reads \<^verbatim>\<open>f.h\<close> only when \<^verbatim>\<open>h.first\<close> is false.
\<close>

definition nextBlockInFile :: "packedFileReader \<Rightarrow> error option \<times> packedFileReader" where
  "nextBlockInFile f =
     (case fbr_next (pf_r f) of
        (Inl err, s) \<Rightarrow>
          (if err = EOF then (Some errUnexpectedArcEnd, f\<lparr>pf_r := s\<rparr>)
           else (Some err, f\<lparr>pf_r := s\<rparr>))
      | (Inr nh, s) \<Rightarrow>
          (if firstBlock nh then (Some errInvalidFileBlock, f\<lparr>pf_r := s\<rparr>)
           else case pf_h f of
                  None \<Rightarrow> (Some nilDeref, f\<lparr>pf_r := s\<rparr>)
                | Some c \<Rightarrow>
                    if Name nh \<noteq> Name c then (Some errInvalidFileBlock, f\<lparr>pf_r := s\<rparr>)
                    else (None, f\<lparr>pf_r := s, pf_h := Some nh\<rparr>)))"

lemma nextBlockInFile_consumes:
  "nextBlockInFile f = (None, f') \<Longrightarrow>
     length (fbr_blocks (pf_r f')) < length (fbr_blocks (pf_r f))"
  by (auto simp: nextBlockInFile_def fbr_next_def
           split: list.splits sum.splits if_splits option.splits)

text \<open>The loop \<^verbatim>\<open>for !f.h.last { ... }\<close> of \<^verbatim>\<open>next\<close> (skip to the last block of the file).\<close>

function skipToLast :: "packedFileReader \<Rightarrow> error option \<times> packedFileReader" where
  "skipToLast f =
     (case pf_h f of
        None \<Rightarrow> (Some nilDeref, f)
      | Some c \<Rightarrow>
          if \<not> lastBlock c then
            (case nextBlockInFile f of
               (Some err, f') \<Rightarrow> (Some err, f')
             | (None, f') \<Rightarrow> skipToLast f')
          else (None, f))"
  by pat_completeness auto
termination
  by (relation "measure (\<lambda>f. length (fbr_blocks (pf_r f)))")
     (auto dest: nextBlockInFile_consumes [OF sym])

declare skipToLast.simps [simp del]

text \<open>
  \<^verbatim>\<open>func (f *packedFileReader) next() (*fileBlockHeader, error)\<close>. The assignment
  \<^verbatim>\<open>f.h, err = f.r.next()\<close> stores the nil header that comes with an error.
\<close>

definition packed_next :: "packedFileReader \<Rightarrow> (error + fileBlockHeader) \<times> packedFileReader" where
  "packed_next f =
     (case (if pf_h f \<noteq> None then skipToLast f else (None, f)) of
        (Some err, f1) \<Rightarrow> (Inl err, f1)
      | (None, f1) \<Rightarrow>
          (case fbr_next (pf_r f1) of
             (Inl err, s) \<Rightarrow> (Inl err, f1\<lparr>pf_r := s, pf_h := None\<rparr>)
           | (Inr nh, s) \<Rightarrow>
               if \<not> firstBlock nh then (Inl errInvalidFileBlock, f1\<lparr>pf_r := s, pf_h := Some nh\<rparr>)
               else (Inr nh, f1\<lparr>pf_r := s, pf_h := Some nh\<rparr>)))"

text \<open>
  \<^verbatim>\<open>func (f *packedFileReader) Read(p []byte) (int, error)\<close>: the first read of the current
  block, then the loop \<^verbatim>\<open>for err == io.EOF { ... }\<close>, which is \<open>readLoop\<close> on the result of
  the read before it.
\<close>

function readLoop :: "packedFileReader \<Rightarrow> nat \<Rightarrow> read_result \<Rightarrow> read_result \<times> packedFileReader" where
  "readLoop f k (bs, err) =
     (if err = Some EOF then
        if length bs > 0 then ((bs, None), f)
        else if (case pf_h f of None \<Rightarrow> True | Some c \<Rightarrow> lastBlock c) then (([], Some EOF), f)
        else
          (case nextBlockInFile f of
             (Some e, f') \<Rightarrow> (([], Some e), f')
           | (None, f') \<Rightarrow>
               (case fbr_Read (pf_r f') k of (res, s) \<Rightarrow> readLoop (f'\<lparr>pf_r := s\<rparr>) k res))
      else ((bs, err), f))"
  by pat_completeness auto
termination
  by (relation "measure (\<lambda>(f, k, res). length (fbr_blocks (pf_r f)))")
     (auto dest!: nextBlockInFile_consumes [OF sym] simp: fbr_Read_def split: prod.splits)

definition packed_Read :: "packedFileReader \<Rightarrow> nat \<Rightarrow> read_result \<times> packedFileReader" where
  "packed_Read f k = (case fbr_Read (pf_r f) k of (res, s) \<Rightarrow> readLoop (f\<lparr>pf_r := s\<rparr>) k res)"

text \<open>
  The data model's chain: \<open>chain_from h bs\<close> says that the blocks \<open>bs\<close> are exactly what is
  left of the chain of the file whose current record is \<open>h\<close>. Every one of them continues
  the file (its \<open>first\<close> flag is clear and it carries the file's name), and the chain ends
  at the first record whose \<open>last\<close> flag is set. With no current record nothing is left.
\<close>

fun chain_from :: "fileBlockHeader option \<Rightarrow> block list \<Rightarrow> bool" where
  "chain_from None bs = (bs = [])"
| "chain_from (Some c) [] = lastBlock c"
| "chain_from (Some c) (b # bs) =
     (\<not> lastBlock c \<and> \<not> firstBlock (b_hdr b) \<and> Name (b_hdr b) = Name c \<and>
      chain_from (Some (b_hdr b)) bs)"

text \<open>
  How much of a file is left to read: the unread bytes of the current block, and for every
  later block its payload and the step that reaches it.
\<close>

definition unread :: "byte list \<Rightarrow> block list \<Rightarrow> nat" where
  "unread cur chain = length cur + sum_list (map (\<lambda>b. Suc (length (b_data b))) chain)"

section \<open>The layers between the walker and the caller\<close>

text \<open>
  Modelled from the spec: the decrypt layer (\<^verbatim>\<open>newAesDecryptReader\<close>, defined elsewhere).
  Given key and iv it turns the bytes of the reader below it into plaintext. The cipher is
  out of scope and is a parameter of everything that reads: \<open>ci key iv i b\<close> is the plaintext
  of the byte \<open>b\<close> read at offset \<open>i\<close>.
\<close>

type_synonym cipher = "byte list \<Rightarrow> byte list \<Rightarrow> nat \<Rightarrow> byte \<Rightarrow> byte"

text \<open>
  The readers \<^verbatim>\<open>Next\<close> builds below the decode layer: \<^verbatim>\<open>&r.pr\<close>, a pointer to the walker
  inside the \<^verbatim>\<open>Reader\<close>, with or without the decrypt layer around it.
\<close>

datatype srcReader =
    PackedRef
  | AesDecrypt srcReader "byte list" "byte list" nat

definition newAesDecryptReader :: "srcReader \<Rightarrow> byte list \<Rightarrow> byte list \<Rightarrow> srcReader" where
  "newAesDecryptReader r ky v = AesDecrypt r ky v 0"

fun src_Read ::
  "cipher \<Rightarrow> srcReader \<Rightarrow> nat \<Rightarrow> packedFileReader \<Rightarrow> read_result \<times> srcReader \<times> packedFileReader" where
  "src_Read ci PackedRef k f = (case packed_Read f k of (res, f') \<Rightarrow> (res, PackedRef, f'))"
| "src_Read ci (AesDecrypt r ky v off) k f =
     (case src_Read ci r k f of
        ((bs, err), r', f') \<Rightarrow>
          ((map (\<lambda>(i, b). ci ky v i b) (zip [off ..< off + length bs] bs), err),
           AesDecrypt r' ky v (off + length bs), f'))"

text \<open>
  Modelled from the spec: the decode layer (\<^verbatim>\<open>decodeReader\<close>, defined elsewhere). It is
  initialised with the active reader, a decoder, a window size and a reset flag, may refuse
  the initialisation, and is a byte source afterwards. It keeps what it was initialised
  with and its dictionary, which a reset empties and which is carried over otherwise.
  A read decodes what one read of its source delivers. Before its first initialisation it
  has neither source nor decoder.
\<close>

record decodeReader =
  d_src :: "srcReader option"
  d_dec :: "decoder option"
  d_win :: nat
  d_dict :: "byte list"

definition decode_init ::
  "decodeReader \<Rightarrow> srcReader \<Rightarrow> decoder \<Rightarrow> nat \<Rightarrow> bool \<Rightarrow> error option \<times> decodeReader" where
  "decode_init d r dec win reset =
     (case dec_initErr dec win reset of
        Some err \<Rightarrow> (Some err, d)
      | None \<Rightarrow>
          (None, \<lparr>d_src = Some r, d_dec = Some dec, d_win = win,
                  d_dict = (if reset then [] else d_dict d)\<rparr>))"

fun decode_bytes :: "decoder \<Rightarrow> byte list \<Rightarrow> byte list \<Rightarrow> byte list" where
  "decode_bytes dec dict [] = []"
| "decode_bytes dec dict (b # bs) =
     dec_byte dec dict b # decode_bytes dec (dict @ [dec_byte dec dict b]) bs"

definition decode_Read ::
  "cipher \<Rightarrow> decodeReader \<Rightarrow> nat \<Rightarrow> packedFileReader
     \<Rightarrow> read_result \<times> decodeReader \<times> packedFileReader" where
  "decode_Read ci d k f =
     (case d_src d of
        None \<Rightarrow> (([], Some nilDeref), d, f)
      | Some r \<Rightarrow>
          (case d_dec d of
             None \<Rightarrow> (([], Some nilDeref), d, f)
           | Some dec \<Rightarrow>
               (case src_Read ci r k f of
                  ((bs, err), r', f') \<Rightarrow>
                    ((decode_bytes dec (d_dict d) bs, err),
                     d\<lparr>d_src := Some r', d_dict := d_dict d @ decode_bytes dec (d_dict d) bs\<rparr>,
                     f'))))"

section \<open>The top-level reader\<close>

text \<open>
  The values of the field \<^verbatim>\<open>r io.Reader\<close> of \<^verbatim>\<open>Reader\<close>: nil, \<^verbatim>\<open>bytes.NewReader\<close>, a reader
  below the decode layer, \<^verbatim>\<open>&r.dr\<close> (a pointer to the decode layer inside the \<^verbatim>\<open>Reader\<close>),
  \<^verbatim>\<open>limitReader\<close> and \<^verbatim>\<open>io.TeeReader\<close>. The tee writes to the checksum sink of the current
  file, which is the object \<^verbatim>\<open>r.cksum\<close> points to.
\<close>

datatype reader =
    NilReader
  | BytesReader "byte list"
  | Src srcReader
  | DecodeRef
  | Limited "reader limitedReader"
  | TeeReader reader

text \<open>\<^verbatim>\<open>type Reader struct { r; pr; dr; cksum; solidr }\<close>\<close>

record Reader =
  rd_r :: reader
  rd_pr :: packedFileReader
  rd_dr :: decodeReader
  rd_cksum :: "fileChecksum option"
  rd_solidr :: "reader option"

lemma limited_Read_cong [fundef_cong]:
  assumes "l = l'" and "k = k'" and "w = w'"
    and "\<And>k2 w2. rd (l_r l') k2 w2 = rd' (l_r l') k2 w2"
  shows "limited_Read rd l k w = limited_Read rd' l' k' w'"
  using assms by (simp add: limited_Read_def)

lemma size_l_r [termination_simp]: "size (l_r l) < Suc (size_limitedReader size l)"
  by (cases l) simp

text \<open>
  \<^verbatim>\<open>Read\<close> through the interface value: one case for each kind of reader. The readers that
  are pointers into the \<^verbatim>\<open>Reader\<close> work on its fields; the others carry their own state.
\<close>

fun reader_Read :: "cipher \<Rightarrow> reader \<Rightarrow> nat \<Rightarrow> Reader \<Rightarrow> read_result \<times> reader \<times> Reader" where
  "reader_Read ci NilReader k R = (([], Some nilDeref), NilReader, R)"
| "reader_Read ci (BytesReader xs) k R =
     (case chunk_Read 0 False xs k of (res, rest) \<Rightarrow> (res, BytesReader rest, R))"
| "reader_Read ci (Src s) k R =
     (case src_Read ci s k (rd_pr R) of (res, s', f') \<Rightarrow> (res, Src s', R\<lparr>rd_pr := f'\<rparr>))"
| "reader_Read ci DecodeRef k R =
     (case decode_Read ci (rd_dr R) k (rd_pr R) of
        (res, d', f') \<Rightarrow> (res, DecodeRef, R\<lparr>rd_dr := d', rd_pr := f'\<rparr>))"
| "reader_Read ci (Limited l) k R =
     (case limited_Read (reader_Read ci) l k R of (res, l', R') \<Rightarrow> (res, Limited l', R'))"
| "reader_Read ci (TeeReader r) k R =
     (case reader_Read ci r k R of
        ((bs, err), r', R') \<Rightarrow>
          ((bs, err), TeeReader r',
           if length bs > 0
           then R'\<lparr>rd_cksum := map_option (\<lambda>c. cksum_Write c bs) (rd_cksum R')\<rparr>
           else R'))"

text \<open>\<^verbatim>\<open>func (r *Reader) Read(p []byte) (int, error)\<close>\<close>

definition Reader_Read :: "cipher \<Rightarrow> Reader \<Rightarrow> nat \<Rightarrow> read_result \<times> Reader" where
  "Reader_Read ci R k =
     (case reader_Read ci (rd_r R) k R of
        ((bs, err), r', R') \<Rightarrow>
          if err = Some EOF \<and> (case rd_cksum R' of None \<Rightarrow> False | Some c \<Rightarrow> \<not> valid c)
          then ((bs, Some errBadFileChecksum), R'\<lparr>rd_r := r'\<rparr>)
          else ((bs, err), R'\<lparr>rd_r := r'\<rparr>))"

text \<open>
  \<^verbatim>\<open>func (r *Reader) init(fbr fileBlockReader)\<close>, and the \<^verbatim>\<open>Reader\<close> that \<^verbatim>\<open>NewReader\<close> and
  \<^verbatim>\<open>OpenReader\<close> hand out: the zero value after \<^verbatim>\<open>init\<close>. The nil block source of the zero
  value is replaced by \<^verbatim>\<open>init\<close> before anything can use it.
\<close>

definition Reader_init :: "Reader \<Rightarrow> fileBlockReader \<Rightarrow> Reader" where
  "Reader_init R fbr = R\<lparr>rd_r := BytesReader [], rd_pr := (rd_pr R)\<lparr>pf_r := fbr\<rparr>\<rparr>"

definition new_Reader :: "fileBlockReader \<Rightarrow> Reader" where
  "new_Reader fbr =
     Reader_init
       \<lparr>rd_r = NilReader, rd_pr = \<lparr>pf_r = fbr, pf_h = None\<rparr>,
        rd_dr = \<lparr>d_src = None, d_dec = None, d_win = 0, d_dict = []\<rparr>,
        rd_cksum = None, rd_solidr = None\<rparr> fbr"

text \<open>
  \<^verbatim>\<open>io.Copy(ioutil.Discard, r)\<close>: read \<open>r\<close> with the buffer of \<^verbatim>\<open>ioutil.Discard\<close> until it
  reports an error, drop the bytes, and return nil for \<^verbatim>\<open>io.EOF\<close> and the error otherwise.
  A reader and the \<^verbatim>\<open>Reader\<close> whose fields it points into are one state for the loop.
\<close>

definition discardBufSize :: nat where
  "discardBufSize = 8192"

definition chain_Read :: "cipher \<Rightarrow> reader \<times> Reader \<Rightarrow> nat \<Rightarrow> read_result \<times> (reader \<times> Reader)" where
  "chain_Read ci s k = (case reader_Read ci (fst s) k (snd s) of (res, r', R') \<Rightarrow> (res, (r', R')))"

definition io_Copy_Discard :: "cipher \<Rightarrow> reader \<Rightarrow> Reader \<Rightarrow> (error option \<times> reader \<times> Reader) option" where
  "io_Copy_Discard ci r R =
     (case readAll (chain_Read ci) discardBufSize (r, R) [] of
        None \<Rightarrow> None
      | Some ((bs, err), (r', R')) \<Rightarrow> Some (if err = EOF then None else Some err, r', R'))"

text \<open>
  \<^verbatim>\<open>func (r *Reader) Next() (*FileHeader, error)\<close>, in its two parts: the draining of a
  pending solid stream (the first \<^verbatim>\<open>if\<close>), and the rest, from \<^verbatim>\<open>r.pr.next()\<close> on.
\<close>

definition drain_pending :: "cipher \<Rightarrow> Reader \<Rightarrow> (error option \<times> Reader) option" where
  "drain_pending ci R =
     (case rd_solidr R of
        None \<Rightarrow> Some (None, R)
      | Some s \<Rightarrow>
          (case io_Copy_Discard ci s R of
             None \<Rightarrow> None
           | Some (err, s', R') \<Rightarrow> Some (err, R'\<lparr>rd_solidr := Some s'\<rparr>)))"

definition Next_advance :: "Reader \<Rightarrow> (error + FileHeader) \<times> Reader" where
  "Next_advance R =
     (case packed_next (rd_pr R) of
        (Inl err, f) \<Rightarrow> (Inl err, R\<lparr>rd_pr := f\<rparr>)
      | (Inr h, f) \<Rightarrow>
          let R1 = R\<lparr>rd_pr := f, rd_solidr := None\<rparr>;
              src = (if length (key h) > 0 \<and> length (iv h) > 0
                     then newAesDecryptReader PackedRef (key h) (iv h) else PackedRef);
              R2 = R1\<lparr>rd_r := Src src\<rparr>
          in
          case (case decoder h of
                  None \<Rightarrow> (None, R2)
                | Some dec \<Rightarrow>
                    (case decode_init (rd_dr R2) src dec (winSize h) (\<not> solid h) of
                       (Some err, d) \<Rightarrow> (Some err, R2\<lparr>rd_dr := d\<rparr>)
                     | (None, d) \<Rightarrow>
                         let R3 = R2\<lparr>rd_dr := d, rd_r := DecodeRef\<rparr>
                         in (None, if isSolid (pf_r (rd_pr R3))
                                   then R3\<lparr>rd_solidr := Some (rd_r R3)\<rparr> else R3))) of
            (Some err, R4) \<Rightarrow> (Inl err, R4)
          | (None, R4) \<Rightarrow>
              let R5 = (if UnPackedSize h \<ge> 0 \<and> \<not> UnKnownSize h
                        then R4\<lparr>rd_r := Limited (limitReader (rd_r R4) (UnPackedSize h) errShortFile)\<rparr>
                        else R4);
                  R6 = R5\<lparr>rd_cksum := cksum h\<rparr>;
                  R7 = (if rd_cksum R6 \<noteq> None then R6\<lparr>rd_r := TeeReader (rd_r R6)\<rparr> else R6)
              in (Inr (FileHeader.truncate h), R7))"

definition Reader_Next :: "cipher \<Rightarrow> Reader \<Rightarrow> ((error + FileHeader) \<times> Reader) option" where
  "Reader_Next ci R =
     (case drain_pending ci R of
        None \<Rightarrow> None
      | Some (Some err, R1) \<Rightarrow> Some (Inl err, R1)
      | Some (None, R1) \<Rightarrow> Some (Next_advance R1))"

text \<open>
  What a walker can still deliver or step over: the unread bytes of the current block and,
  for every entry the block source still holds, one step and its payload. For a reader of
  the top-level \<^verbatim>\<open>Reader\<close> it is what the source at the bottom of its layers has left.
\<close>

definition walker_left :: "packedFileReader \<Rightarrow> nat" where
  "walker_left f =
     length (fbr_cur (pf_r f)) +
     sum_list (map (\<lambda>e. case e of Inl _ \<Rightarrow> 1 | Inr b \<Rightarrow> Suc (length (b_data b)))
                   (fbr_blocks (pf_r f)))"

fun reader_left :: "reader \<Rightarrow> Reader \<Rightarrow> nat" where
  "reader_left NilReader R = 0"
| "reader_left (BytesReader xs) R = length xs"
| "reader_left (Src s) R = walker_left (rd_pr R)"
| "reader_left DecodeRef R = walker_left (rd_pr R)"
| "reader_left (Limited l) R = reader_left (l_r l) R"
| "reader_left (TeeReader r) R = reader_left r R"

text \<open>
  The bounded reader inside a reader built by \<^verbatim>\<open>Next\<close>, if there is one: its remaining limit
  and its designated error.
\<close>

fun bound_of :: "reader \<Rightarrow> (int \<times> error) option" where
  "bound_of (Limited l) = Some (l_n l, shortErr l)"
| "bound_of (TeeReader r) = bound_of r"
| "bound_of r = None"

text \<open>
  What a reader below the decode layer makes of the raw bytes \<open>xs\<close> that the walker delivers
  to it from now on, and the same reader after it has passed \<open>n\<close> bytes on.
\<close>

fun src_plain :: "cipher \<Rightarrow> srcReader \<Rightarrow> byte list \<Rightarrow> byte list" where
  "src_plain ci PackedRef xs = xs"
| "src_plain ci (AesDecrypt r ky v off) xs =
     map (\<lambda>(i, b). ci ky v i b) (zip [off ..< off + length xs] (src_plain ci r xs))"

fun src_advance :: "srcReader \<Rightarrow> nat \<Rightarrow> srcReader" where
  "src_advance PackedRef n = PackedRef"
| "src_advance (AesDecrypt r ky v off) n = AesDecrypt (src_advance r n) ky v (off + n)"

section \<open>Example archives\<close>

text \<open>
  A block record with a name and its two position flags: no decoder, no checksum, no
  encryption, unknown unpacked size. The examples below change the fields they need.
\<close>

definition blockHeader :: "string \<Rightarrow> bool \<Rightarrow> bool \<Rightarrow> fileBlockHeader" where
  "blockHeader n f l =
     \<lparr>Name = n, IsDir = False, HostOS = 0, Attributes = 0, PackedSize = 0, UnPackedSize = 0,
      UnKnownSize = True, ModificationTime = 0, CreationTime = 0, AccessTime = 0, Version = 0,
      firstBlock = f, lastBlock = l, solid = False, winSize = 0, cksum = None, decoder = None,
      key = [], iv = []\<rparr>"

definition blockSource :: "byte list \<Rightarrow> (error + block) list \<Rightarrow> fileBlockReader" where
  "blockSource cur bs =
     \<lparr>fbr_cur = cur, fbr_blocks = bs, fbr_solid = False, fbr_maxRead = 0, fbr_eagerEOF = False\<rparr>"

text \<open>
  A decoder that accepts every initialisation and adds the length of the dictionary to each
  byte, so that its output shows whether the dictionary was carried over; a cipher that
  leaves the bytes as they are; and a solid archive.
\<close>

definition countingDecoder :: decoder where
  "countingDecoder =
     \<lparr>dec_initErr = (\<lambda>win reset. None), dec_byte = (\<lambda>dict b. b + of_nat (length dict))\<rparr>"

definition plainCipher :: cipher where
  "plainCipher ky v i b = b"

definition solidSource :: "byte list \<Rightarrow> (error + block) list \<Rightarrow> fileBlockReader" where
  "solidSource cur bs = (blockSource cur bs)\<lparr>fbr_solid := True\<rparr>"

text \<open>
  Two files of a solid archive, both compressed; a \<^verbatim>\<open>Reader\<close> that has advanced to the first
  and read nothing of it, so that its decode stream is pending; a \<^verbatim>\<open>Reader\<close> in the middle
  of a file whose checksum sink accepts exactly the bytes \<open>good\<close>; a file whose header
  declares an unpacked size; and the state of a \<^verbatim>\<open>Reader\<close> after \<^verbatim>\<open>Next\<close>.
\<close>

definition solidHeader :: "string \<Rightarrow> fileBlockHeader" where
  "solidHeader n = (blockHeader n True True)\<lparr>solid := True, decoder := Some countingDecoder\<rparr>"

definition pendingReader :: Reader where
  "pendingReader =
     \<lparr>rd_r = DecodeRef,
      rd_pr = \<lparr>pf_r = solidSource [1, 2] [Inr \<lparr>b_hdr = solidHeader ''b.txt'', b_data = [5]\<rparr>],
               pf_h = Some (solidHeader ''a.txt'')\<rparr>,
      rd_dr = \<lparr>d_src = Some PackedRef, d_dec = Some countingDecoder, d_win = 0, d_dict = []\<rparr>,
      rd_cksum = None, rd_solidr = Some DecodeRef\<rparr>"

definition checkedReader :: "byte list \<Rightarrow> Reader" where
  "checkedReader good =
     \<lparr>rd_r = TeeReader (Src PackedRef),
      rd_pr = \<lparr>pf_r = blockSource [1, 2] [], pf_h = Some (blockHeader ''a.txt'' True True)\<rparr>,
      rd_dr = \<lparr>d_src = None, d_dec = None, d_win = 0, d_dict = []\<rparr>,
      rd_cksum = Some \<lparr>ck_accepts = (\<lambda>bs. bs = good), ck_written = []\<rparr>,
      rd_solidr = None\<rparr>"

definition sizedHeader :: "int \<Rightarrow> fileBlockHeader" where
  "sizedHeader n = (blockHeader ''a.txt'' True True)\<lparr>UnPackedSize := n, UnKnownSize := False\<rparr>"

definition sizedArchive :: "int \<Rightarrow> Reader" where
  "sizedArchive n = new_Reader (blockSource [] [Inr \<lparr>b_hdr = sizedHeader n, b_data = [1, 2, 3]\<rparr>])"

definition afterNext :: "cipher \<Rightarrow> Reader \<Rightarrow> Reader" where
  "afterNext ci R = (case Reader_Next ci R of Some (res, R') \<Rightarrow> R' | None \<Rightarrow> R)"

text \<open>
  A \<^verbatim>\<open>Reader\<close> of a solid archive that has advanced to a compressed file of two blocks and
  read nothing of it: the first block is current, the second and the next file are still in
  the block source, which hands out one byte for each read.
\<close>

definition solidBlock :: "string \<Rightarrow> bool \<Rightarrow> bool \<Rightarrow> fileBlockHeader" where
  "solidBlock n f l = (blockHeader n f l)\<lparr>solid := True, decoder := Some countingDecoder\<rparr>"

definition pendingTwoBlocks :: Reader where
  "pendingTwoBlocks =
     \<lparr>rd_r = DecodeRef,
      rd_pr = \<lparr>pf_r = (solidSource [1, 2]
                 [Inr \<lparr>b_hdr = solidBlock ''a.txt'' False True, b_data = [3]\<rparr>,
                  Inr \<lparr>b_hdr = solidBlock ''b.txt'' True True, b_data = [5]\<rparr>])
                 \<lparr>fbr_maxRead := 1\<rparr>,
               pf_h = Some (solidBlock ''a.txt'' True False)\<rparr>,
      rd_dr = \<lparr>d_src = Some PackedRef, d_dec = Some countingDecoder, d_win = 0, d_dict = []\<rparr>,
      rd_cksum = None, rd_solidr = Some DecodeRef\<rparr>"

section \<open>Properties of the bounded reader\<close>

lemma chunk_Read_nonempty:
  assumes "xs \<noteq> []" "0 < k"
  shows "\<exists>n. 0 < n \<and> n \<le> length xs \<and> n \<le> k \<and>
     chunk_Read m e xs k =
       ((take n xs, if drop n xs = [] \<and> e then Some EOF else None), drop n xs)"
proof -
  define n where "n = min k (if m = 0 then length xs else min m (length xs))"
  have n: "0 < n" "n \<le> length xs" "n \<le> k"
    using assms by (auto simp: n_def min_def)
  have "chunk_Read m e xs k =
       ((take n xs, if drop n xs = [] \<and> e then Some EOF else None), drop n xs)"
    using assms(1) unfolding chunk_Read_def n_def Let_def by simp
  with n show ?thesis by blast
qed

lemma chunk_Read_empty: "chunk_Read m e [] k = (([], Some EOF), [])"
  by (simp add: chunk_Read_def)

lemma limited_source_clip:
  assumes "0 < L"
  shows "limited_source_Read (LimitedReader s L se) k =
     (case source_Read s (if int k > L then nat L else k) () of
        ((bs, err), r', w') \<Rightarrow>
          if err = Some EOF \<and> L - int (length bs) > 0
          then ((bs, Some se), LimitedReader r' (L - int (length bs)) se)
          else ((bs, err), LimitedReader r' (L - int (length bs)) se))"
  using assms
  by (simp add: limited_source_Read_def limited_Read_def Let_def split: prod.splits)

lemma limited_source_step:
  assumes "0 < L" "0 < k" "xs \<noteq> []"
  shows "\<exists>n. 0 < n \<and> n \<le> length xs \<and> int n \<le> L \<and>
     limited_source_Read (LimitedReader \<lparr>src_data = xs, src_maxRead = m, src_eagerEOF = e\<rparr> L se) k =
       ((take n xs,
         if drop n xs = [] \<and> e then (if int n < L then Some se else Some EOF) else None),
        LimitedReader \<lparr>src_data = drop n xs, src_maxRead = m, src_eagerEOF = e\<rparr> (L - int n) se)"
proof -
  define k' where "k' = (if int k > L then nat L else k)"
  have k': "0 < k'" "int k' \<le> L" using assms by (auto simp: k'_def)
  from chunk_Read_nonempty [OF assms(3) k'(1), of m e]
  obtain n where n: "0 < n" "n \<le> length xs" "n \<le> k'"
    and c: "chunk_Read m e xs k' =
       ((take n xs, if drop n xs = [] \<and> e then Some EOF else None), drop n xs)"
    by blast
  have nL: "int n \<le> L" using n k' by linarith
  have "limited_source_Read (LimitedReader \<lparr>src_data = xs, src_maxRead = m, src_eagerEOF = e\<rparr> L se) k =
       ((take n xs,
         if drop n xs = [] \<and> e then (if int n < L then Some se else Some EOF) else None),
        LimitedReader \<lparr>src_data = drop n xs, src_maxRead = m, src_eagerEOF = e\<rparr> (L - int n) se)"
    unfolding limited_source_clip [OF assms(1)] k'_def [symmetric]
    using n nL by (simp add: source_Read_def c)
  with n nL show ?thesis by blast
qed

lemma limited_readAll:
  assumes "0 \<le> L" "0 < k"
  shows "readAll limited_source_Read k
           (LimitedReader \<lparr>src_data = xs, src_maxRead = m, src_eagerEOF = e\<rparr> L se) acc =
         Some ((acc @ take (nat L) xs, if int (length xs) < L then se else EOF),
               LimitedReader \<lparr>src_data = drop (nat L) xs, src_maxRead = m, src_eagerEOF = e\<rparr>
                 (L - int (min (nat L) (length xs))) se)"
  using assms
proof (induction "length xs" arbitrary: xs L acc rule: less_induct)
  case less
  show ?case
  proof (cases "L = 0")
    case True
    then show ?thesis
      by (subst readAll.simps) (simp add: limited_source_Read_def limited_Read_def)
  next
    case Lpos: False
    with less.prems have L: "0 < L" by simp
    show ?thesis
    proof (cases "xs = []")
      case True
      then show ?thesis using L less.prems
        by (subst readAll.simps)
           (simp add: limited_source_Read_def limited_Read_def source_Read_def chunk_Read_def)
    next
      case False
      from limited_source_step [OF L less.prems(2) False, of m e se]
      obtain n where n: "0 < n" "n \<le> length xs" "int n \<le> L"
        and step: "limited_source_Read (LimitedReader \<lparr>src_data = xs, src_maxRead = m, src_eagerEOF = e\<rparr> L se) k =
       ((take n xs,
         if drop n xs = [] \<and> e then (if int n < L then Some se else Some EOF) else None),
        LimitedReader \<lparr>src_data = drop n xs, src_maxRead = m, src_eagerEOF = e\<rparr> (L - int n) se)"
        by blast
      show ?thesis
      proof (cases "drop n xs = [] \<and> e")
        case True
        then have len: "length xs = n" using n by simp
        show ?thesis
          by (subst readAll.simps, subst step) (use True n len in auto)
      next
        case False
        have shorter: "length (drop n xs) < length xs" using n \<open>xs \<noteq> []\<close> by simp
        have L': "0 \<le> L - int n" using n by simp
        have tk: "take n xs @ take (nat (L - int n)) (drop n xs) = take (nat L) xs"
        proof -
          have "nat L = n + nat (L - int n)" using n by simp
          then show ?thesis by (simp add: take_add)
        qed
        have e1: "nat (L - int n) + n = nat L" using n by simp
        have e2: "L - int n - int (min (nat (L - int n)) (length xs - n)) =
                  L - int (min (nat L) (length xs))"
          using n by (auto simp: min_def)
        have "readAll limited_source_Read k
           (LimitedReader \<lparr>src_data = xs, src_maxRead = m, src_eagerEOF = e\<rparr> L se) acc =
           readAll limited_source_Read k
           (LimitedReader \<lparr>src_data = drop n xs, src_maxRead = m, src_eagerEOF = e\<rparr> (L - int n) se) (acc @ take n xs)"
          by (subst readAll.simps, subst step) (use False in auto)
        also have "\<dots> = Some (((acc @ take n xs) @ take (nat (L - int n)) (drop n xs),
               if int (length (drop n xs)) < L - int n then se else EOF),
               LimitedReader \<lparr>src_data = drop (nat (L - int n)) (drop n xs), src_maxRead = m, src_eagerEOF = e\<rparr>
                 ((L - int n) - int (min (nat (L - int n)) (length (drop n xs)))) se)"
          by (rule less.hyps [OF shorter L' less.prems(2)])
        finally show ?thesis using n by (simp add: tk e1 e2)
      qed
    qed
  qed
qed


text \<open>
  Claim C2. A bounded reader with limit \<open>L \<ge> 0\<close> and designated error \<open>se\<close> over a source
  holding the \<open>S\<close> bytes \<open>xs\<close>, read to exhaustion with any non-empty buffer: the loop
  returns, it has delivered the first \<open>min L S\<close> bytes of \<open>xs\<close> and nothing else, and it ends
  with \<open>se\<close> when \<open>S < L\<close> and with plain end-of-stream when \<open>S \<ge> L\<close>. Whatever the inner
  reader is, a read at remaining limit zero returns no bytes and end-of-stream, and leaves
  the inner reader untouched.
\<close>

theorem limitedReader_delivers_min:
  assumes "0 \<le> L" and "0 < k"
  shows "(\<exists>fin. readAll limited_source_Read k
            (limitReader \<lparr>src_data = xs, src_maxRead = m, src_eagerEOF = e\<rparr> L se) [] =
          Some ((take (nat L) xs, if int (length xs) < L then se else EOF), fin))
       \<and> int (length (take (nat L) xs)) = min L (int (length xs))
       \<and> limited_Read rd (limitReader r 0 se) k' w = (([], Some EOF), limitReader r 0 se, w)"
proof -
  have "int (length (take (nat L) xs)) = min L (int (length xs))"
    using assms(1) by (auto simp: min_def)
  moreover have "limited_Read rd (limitReader r 0 se) k' w = (([], Some EOF), limitReader r 0 se, w)"
    by (simp add: limited_Read_def limitReader_def)
  ultimately show ?thesis
    using limited_readAll [OF assms, of xs m e se "[]"] by (simp add: limitReader_def)
qed

theorem limitedReader_delivers_min_witness:
  "(0::int) \<le> 2 \<and> (0::nat) < 1 \<and>
   (\<exists>fin. readAll limited_source_Read 1
            (limitReader \<lparr>src_data = [1, 2, 3], src_maxRead = 0, src_eagerEOF = True\<rparr> 2 errShortFile) [] =
          Some (([1, 2], EOF), fin)) \<and>
   (\<exists>fin. readAll limited_source_Read 4
            (limitReader \<lparr>src_data = [1, 2, 3], src_maxRead = 2, src_eagerEOF = False\<rparr> 5 errShortFile) [] =
          Some (([1, 2, 3], errShortFile), fin))"
proof -
  have a: "(0::int) \<le> 2" and b: "(0::nat) < 1" and c: "(0::int) \<le> 5" and d: "(0::nat) < 4"
    by simp_all
  show ?thesis
    using limitedReader_delivers_min [OF a b, THEN conjunct1, of "[1, 2, 3]" 0 True errShortFile]
      limitedReader_delivers_min [OF c d, THEN conjunct1, of "[1, 2, 3]" 2 False errShortFile]
    by simp
qed

section \<open>Properties of the block-chain walker\<close>

lemma take_drop_append: "take n xs @ drop n xs @ ys = xs @ ys"
  by (metis append_assoc append_take_drop_id)

lemma fbr_Read_empty:
  "fbr_cur s = [] \<Longrightarrow> fbr_Read s k = (([], Some EOF), s)"
  by (simp add: fbr_Read_def chunk_Read_empty)

lemma fbr_Read_nonempty:
  assumes "fbr_cur s \<noteq> []" "0 < k"
  shows "\<exists>n. 0 < n \<and> n \<le> length (fbr_cur s) \<and> n \<le> k \<and>
     fbr_Read s k =
       ((take n (fbr_cur s),
         if drop n (fbr_cur s) = [] \<and> fbr_eagerEOF s then Some EOF else None),
        s\<lparr>fbr_cur := drop n (fbr_cur s)\<rparr>)"
proof -
  from chunk_Read_nonempty [OF assms, of "fbr_maxRead s" "fbr_eagerEOF s"]
  obtain n where "0 < n" "n \<le> length (fbr_cur s)" "n \<le> k"
    "chunk_Read (fbr_maxRead s) (fbr_eagerEOF s) (fbr_cur s) k =
       ((take n (fbr_cur s),
         if drop n (fbr_cur s) = [] \<and> fbr_eagerEOF s then Some EOF else None),
        drop n (fbr_cur s))"
    by blast
  then show ?thesis unfolding fbr_Read_def by (intro exI [of _ n]) simp
qed

lemma packed_Read_nonempty:
  assumes "fbr_cur (pf_r f) \<noteq> []" "0 < k"
  shows "\<exists>n. 0 < n \<and> n \<le> length (fbr_cur (pf_r f)) \<and> n \<le> k \<and>
     packed_Read f k =
       ((take n (fbr_cur (pf_r f)), None),
        f\<lparr>pf_r := (pf_r f)\<lparr>fbr_cur := drop n (fbr_cur (pf_r f))\<rparr>\<rparr>)"
proof -
  from fbr_Read_nonempty [OF assms]
  obtain n where n: "0 < n" "n \<le> length (fbr_cur (pf_r f))" "n \<le> k"
    and r: "fbr_Read (pf_r f) k =
       ((take n (fbr_cur (pf_r f)),
         if drop n (fbr_cur (pf_r f)) = [] \<and> fbr_eagerEOF (pf_r f) then Some EOF else None),
        (pf_r f)\<lparr>fbr_cur := drop n (fbr_cur (pf_r f))\<rparr>)"
    by blast
  have "take n (fbr_cur (pf_r f)) \<noteq> []" using n assms(1) by auto
  then have "packed_Read f k =
       ((take n (fbr_cur (pf_r f)), None),
        f\<lparr>pf_r := (pf_r f)\<lparr>fbr_cur := drop n (fbr_cur (pf_r f))\<rparr>\<rparr>)"
    by (simp add: packed_Read_def r)
  with n show ?thesis by blast
qed

lemma packed_Read_at_end:
  assumes "fbr_cur (pf_r f) = []" "chain_from (pf_h f) []"
  shows "packed_Read f k = (([], Some EOF), f)"
proof -
  have "case pf_h f of None \<Rightarrow> True | Some c \<Rightarrow> lastBlock c"
    using assms(2) by (cases "pf_h f") auto
  then show ?thesis using assms(1)
    by (simp add: packed_Read_def fbr_Read_empty)
qed

lemma nextBlockInFile_continues:
  assumes "chain_from (pf_h f) (b # bs)" "fbr_blocks (pf_r f) = Inr b # tl0"
  shows "nextBlockInFile f =
     (None, f\<lparr>pf_r := (pf_r f)\<lparr>fbr_cur := b_data b, fbr_blocks := tl0\<rparr>,
              pf_h := Some (b_hdr b)\<rparr>)"
  using assms by (cases "pf_h f") (auto simp: nextBlockInFile_def fbr_next_def)

lemma packed_Read_next_block:
  assumes "fbr_cur (pf_r f) = []" "chain_from (pf_h f) (b # bs)"
    "fbr_blocks (pf_r f) = Inr b # tl0"
  shows "packed_Read f k =
     packed_Read (f\<lparr>pf_r := (pf_r f)\<lparr>fbr_cur := b_data b, fbr_blocks := tl0\<rparr>,
              pf_h := Some (b_hdr b)\<rparr>) k"
proof -
  have nl: "\<not> (case pf_h f of None \<Rightarrow> True | Some c \<Rightarrow> lastBlock c)"
    using assms(2) by (cases "pf_h f") auto
  show ?thesis
    using assms(1) nl
    by (simp add: packed_Read_def fbr_Read_empty nextBlockInFile_continues [OF assms(2,3)])
qed

lemma readAll_cong_step:
  "rd s k = rd s' k \<Longrightarrow> readAll rd k s acc = readAll rd k s' acc"
  by (subst readAll.simps, subst (2) readAll.simps) simp

lemma packed_readAll:
  assumes "chain_from (pf_h f) chain" "fbr_blocks (pf_r f) = map Inr chain @ rest" "0 < k"
  shows "\<exists>f'. readAll packed_Read k f acc =
            Some ((acc @ fbr_cur (pf_r f) @ concat (map b_data chain), EOF), f') \<and>
          fbr_blocks (pf_r f') = rest \<and> fbr_cur (pf_r f') = [] \<and> chain_from (pf_h f') []"
  using assms
proof (induction "unread (fbr_cur (pf_r f)) chain" arbitrary: f chain acc rule: less_induct)
  case less
  show ?case
  proof (cases "fbr_cur (pf_r f) = []")
    case False
    from packed_Read_nonempty [OF False less.prems(3)]
    obtain n where n: "0 < n" "n \<le> length (fbr_cur (pf_r f))"
      and r: "packed_Read f k =
       ((take n (fbr_cur (pf_r f)), None),
        f\<lparr>pf_r := (pf_r f)\<lparr>fbr_cur := drop n (fbr_cur (pf_r f))\<rparr>\<rparr>)"
      by blast
    let ?f1 = "f\<lparr>pf_r := (pf_r f)\<lparr>fbr_cur := drop n (fbr_cur (pf_r f))\<rparr>\<rparr>"
    have m: "unread (fbr_cur (pf_r ?f1)) chain < unread (fbr_cur (pf_r f)) chain"
      using n False by (simp add: unread_def)
    have p1: "chain_from (pf_h ?f1) chain" using less.prems(1) by simp
    have p2: "fbr_blocks (pf_r ?f1) = map Inr chain @ rest" using less.prems(2) by simp
    from less.hyps [OF m p1 p2 less.prems(3), of "acc @ take n (fbr_cur (pf_r f))"]
    obtain f' where f': "readAll packed_Read k ?f1 (acc @ take n (fbr_cur (pf_r f))) =
            Some (((acc @ take n (fbr_cur (pf_r f))) @ fbr_cur (pf_r ?f1) @ concat (map b_data chain), EOF), f')"
      "fbr_blocks (pf_r f') = rest" "fbr_cur (pf_r f') = []" "chain_from (pf_h f') []"
      by blast
    have "readAll packed_Read k f acc = readAll packed_Read k ?f1 (acc @ take n (fbr_cur (pf_r f)))"
      by (subst readAll.simps) (simp add: r)
    moreover have "(acc @ take n (fbr_cur (pf_r f))) @ fbr_cur (pf_r ?f1) @ concat (map b_data chain) =
        acc @ fbr_cur (pf_r f) @ concat (map b_data chain)"
      by (simp add: take_drop_append)
    ultimately show ?thesis using f' by auto
  next
    case True
    show ?thesis
    proof (cases chain)
      case Nil
      with less.prems(1) True have "packed_Read f k = (([], Some EOF), f)"
        by (simp add: packed_Read_at_end)
      then have "readAll packed_Read k f acc = Some ((acc, EOF), f)"
        by (subst readAll.simps) simp
      then show ?thesis using Nil True less.prems by auto
    next
      case (Cons b bs)
      let ?f1 = "f\<lparr>pf_r := (pf_r f)\<lparr>fbr_cur := b_data b, fbr_blocks := map Inr bs @ rest\<rparr>,
              pf_h := Some (b_hdr b)\<rparr>"
      have c: "chain_from (pf_h f) (b # bs)" using less.prems(1) Cons by simp
      have bl: "fbr_blocks (pf_r f) = Inr b # (map Inr bs @ rest)"
        using less.prems(2) Cons by simp
      have e: "readAll packed_Read k f acc = readAll packed_Read k ?f1 acc"
        by (rule readAll_cong_step) (rule packed_Read_next_block [OF True c bl])
      have m: "unread (fbr_cur (pf_r ?f1)) bs < unread (fbr_cur (pf_r f)) chain"
        using True Cons by (simp add: unread_def)
      have p1: "chain_from (pf_h ?f1) bs" using c by (cases "pf_h f") auto
      have p2: "fbr_blocks (pf_r ?f1) = map Inr bs @ rest" by simp
      from less.hyps [OF m p1 p2 less.prems(3), of acc] e True Cons
      show ?thesis by auto
    qed
  qed
qed

lemma fbr_Read_EOF_drained:
  "fbr_Read s k = ((bs, Some EOF), s') \<Longrightarrow> fbr_cur s' = []"
  by (auto simp: fbr_Read_def chunk_Read_def Let_def split: if_splits)

lemma readLoop_EOF_only_at_last:
  "readLoop f k res = ((bs, Some EOF), f') \<Longrightarrow>
   (snd res = Some EOF \<longrightarrow> fbr_cur (pf_r f) = []) \<Longrightarrow>
     bs = [] \<and> fbr_cur (pf_r f') = [] \<and>
     (case pf_h f' of None \<Rightarrow> True | Some c \<Rightarrow> lastBlock c)"
proof (induction f k res arbitrary: bs f' rule: readLoop.induct)
  case (1 f k cs err)
  show ?case
  proof (cases "err = Some EOF")
    case False
    with "1.prems" show ?thesis by simp
  next
    case True
    note eof = this
    show ?thesis
    proof (cases "length cs > 0")
      case True
      with eof "1.prems" show ?thesis by simp
    next
      case False
      note empty = this
      show ?thesis
      proof (cases "case pf_h f of None \<Rightarrow> True | Some c \<Rightarrow> lastBlock c")
        case True
        with eof empty "1.prems" show ?thesis by auto
      next
        case False
        note open_chain = this
        obtain e f1 where nb: "nextBlockInFile f = (e, f1)" by (cases "nextBlockInFile f")
        show ?thesis
        proof (cases e)
          case (Some x)
          have "x \<noteq> EOF" using nb Some
            by (auto simp: nextBlockInFile_def split: prod.splits sum.splits if_splits option.splits)
          with eof empty open_chain nb Some "1.prems" show ?thesis by simp
        next
          case None
          obtain res' s where rd: "fbr_Read (pf_r f1) k = (res', s)"
            by (cases "fbr_Read (pf_r f1) k")
          have run: "readLoop (f1\<lparr>pf_r := s\<rparr>) k res' = ((bs, Some EOF), f')"
            using eof empty open_chain nb None rd "1.prems"(1) by simp
          have inv: "snd res' = Some EOF \<longrightarrow> fbr_cur (pf_r (f1\<lparr>pf_r := s\<rparr>)) = []"
            using rd fbr_Read_EOF_drained [of "pf_r f1" k "fst res'" s] by (cases res') auto
          from "1.IH" [OF eof empty open_chain nb [symmetric] None rd [symmetric] run inv]
          show ?thesis .
        qed
      qed
    qed
  qed
qed

lemma packed_Read_EOF_only_at_last:
  assumes "packed_Read f k = ((bs, Some EOF), f')"
  shows "bs = [] \<and> fbr_cur (pf_r f') = [] \<and>
     (case pf_h f' of None \<Rightarrow> True | Some c \<Rightarrow> lastBlock c)"
proof -
  obtain res s where rd: "fbr_Read (pf_r f) k = (res, s)" by (cases "fbr_Read (pf_r f) k")
  have run: "readLoop (f\<lparr>pf_r := s\<rparr>) k res = ((bs, Some EOF), f')"
    using assms rd by (simp add: packed_Read_def)
  have inv: "snd res = Some EOF \<longrightarrow> fbr_cur (pf_r (f\<lparr>pf_r := s\<rparr>)) = []"
    using rd fbr_Read_EOF_drained [of "pf_r f" k "fst res" s] by (cases res) auto
  from readLoop_EOF_only_at_last [OF run inv] show ?thesis .
qed

lemma skipToLast_chain:
  assumes "pf_h f = Some c" "chain_from (Some c) chain"
    "fbr_blocks (pf_r f) = map Inr chain @ rest"
  shows "skipToLast f =
     (None, if chain = [] then f
            else f\<lparr>pf_r := (pf_r f)\<lparr>fbr_cur := b_data (last chain), fbr_blocks := rest\<rparr>,
                   pf_h := Some (b_hdr (last chain))\<rparr>)
     \<and> lastBlock (if chain = [] then c else b_hdr (last chain))"
  using assms
proof (induction chain arbitrary: f c)
  case Nil
  then show ?case by (subst skipToLast.simps) simp
next
  case (Cons b bs)
  let ?f1 = "f\<lparr>pf_r := (pf_r f)\<lparr>fbr_cur := b_data b, fbr_blocks := map Inr bs @ rest\<rparr>,
              pf_h := Some (b_hdr b)\<rparr>"
  have c: "chain_from (pf_h f) (b # bs)" using Cons.prems by simp
  have bl: "fbr_blocks (pf_r f) = Inr b # (map Inr bs @ rest)" using Cons.prems by simp
  have nb: "nextBlockInFile f = (None, ?f1)"
    by (rule nextBlockInFile_continues [OF c bl])
  have nl: "\<not> lastBlock c" using Cons.prems by simp
  have step: "skipToLast f = skipToLast ?f1"
    using Cons.prems(1) nl nb by (subst skipToLast.simps) simp
  have h1: "pf_h ?f1 = Some (b_hdr b)" by simp
  have c1: "chain_from (Some (b_hdr b)) bs" using Cons.prems by simp
  have b1: "fbr_blocks (pf_r ?f1) = map Inr bs @ rest" by simp
  from Cons.IH [OF h1 c1 b1] step show ?case by (cases "bs = []") simp_all
qed

lemma packed_next_chain:
  assumes "chain_from (pf_h f) chain" "fbr_blocks (pf_r f) = map Inr chain @ rest"
  shows "\<exists>f1. fbr_blocks (pf_r f1) = rest \<and>
          (if chain = [] then f1 = f
           else lastBlock (b_hdr (last chain)) \<and> pf_h f1 = Some (b_hdr (last chain))) \<and>
          packed_next f =
         (case fbr_next (pf_r f1) of
             (Inl err, s) \<Rightarrow> (Inl err, f1\<lparr>pf_r := s, pf_h := None\<rparr>)
           | (Inr nh, s) \<Rightarrow>
               if \<not> firstBlock nh then (Inl errInvalidFileBlock, f1\<lparr>pf_r := s, pf_h := Some nh\<rparr>)
               else (Inr nh, f1\<lparr>pf_r := s, pf_h := Some nh\<rparr>))"
proof (cases "pf_h f")
  case None
  with assms have "chain = []" by simp
  with None assms show ?thesis by (simp add: packed_next_def)
next
  case (Some c)
  define f1 where "f1 = (if chain = [] then f
            else f\<lparr>pf_r := (pf_r f)\<lparr>fbr_cur := b_data (last chain), fbr_blocks := rest\<rparr>,
                   pf_h := Some (b_hdr (last chain))\<rparr>)"
  from skipToLast_chain [OF Some _ assms(2)] assms(1) Some
  have sk: "skipToLast f = (None, f1)"
    and l: "lastBlock (if chain = [] then c else b_hdr (last chain))"
    by (simp_all add: f1_def)
  have a: "fbr_blocks (pf_r f1) = rest" using assms(2) by (simp add: f1_def)
  have b: "if chain = [] then f1 = f
           else lastBlock (b_hdr (last chain)) \<and> pf_h f1 = Some (b_hdr (last chain))"
    using l by (auto simp: f1_def split: if_splits)
  have c: "packed_next f =
         (case fbr_next (pf_r f1) of
             (Inl err, s) \<Rightarrow> (Inl err, f1\<lparr>pf_r := s, pf_h := None\<rparr>)
           | (Inr nh, s) \<Rightarrow>
               if \<not> firstBlock nh then (Inl errInvalidFileBlock, f1\<lparr>pf_r := s, pf_h := Some nh\<rparr>)
               else (Inr nh, f1\<lparr>pf_r := s, pf_h := Some nh\<rparr>))"
    using Some sk by (simp add: packed_next_def)
  from a b c show ?thesis by blast
qed


text \<open>
  Claim C8. Whenever the block source answers the advance within the current file with
  end-of-stream, \<open>nextBlockInFile\<close> fails with the unexpected-end-of-archive error, not with
  plain end-of-stream; so do both of its callers while the chain of the current file is
  still open: the advance to the next file, and a read that has used up the current block.
\<close>

theorem nextBlockInFile_unexpected_end:
  assumes "fbr_next (pf_r f) = (Inl EOF, s)"
  shows "nextBlockInFile f = (Some errUnexpectedArcEnd, f\<lparr>pf_r := s\<rparr>) \<and>
     (\<forall>c. pf_h f = Some c \<and> \<not> lastBlock c \<longrightarrow>
        packed_next f = (Inl errUnexpectedArcEnd, f\<lparr>pf_r := s\<rparr>) \<and>
        (fbr_cur (pf_r f) = [] \<longrightarrow>
           packed_Read f k = (([], Some errUnexpectedArcEnd), f\<lparr>pf_r := s\<rparr>)))"
proof -
  have nb: "nextBlockInFile f = (Some errUnexpectedArcEnd, f\<lparr>pf_r := s\<rparr>)"
    using assms by (simp add: nextBlockInFile_def)
  have "packed_next f = (Inl errUnexpectedArcEnd, f\<lparr>pf_r := s\<rparr>)"
    if "pf_h f = Some c" "\<not> lastBlock c" for c
    using that nb by (simp add: packed_next_def skipToLast.simps [of f])
  moreover have "packed_Read f k = (([], Some errUnexpectedArcEnd), f\<lparr>pf_r := s\<rparr>)"
    if "pf_h f = Some c" "\<not> lastBlock c" "fbr_cur (pf_r f) = []" for c
    using that nb by (simp add: packed_Read_def fbr_Read_empty)
  ultimately show ?thesis using nb by blast
qed

theorem nextBlockInFile_unexpected_end_witness:
  "fbr_next (blockSource [] []) = (Inl EOF, blockSource [] []) \<and>
   nextBlockInFile \<lparr>pf_r = blockSource [] [], pf_h = Some (blockHeader ''a.txt'' True False)\<rparr> =
     (Some errUnexpectedArcEnd,
      \<lparr>pf_r = blockSource [] [], pf_h = Some (blockHeader ''a.txt'' True False)\<rparr>) \<and>
   packed_next \<lparr>pf_r = blockSource [] [], pf_h = Some (blockHeader ''a.txt'' True False)\<rparr> =
     (Inl errUnexpectedArcEnd,
      \<lparr>pf_r = blockSource [] [], pf_h = Some (blockHeader ''a.txt'' True False)\<rparr>)"
proof -
  have a: "fbr_next (pf_r \<lparr>pf_r = blockSource [] [], pf_h = Some (blockHeader ''a.txt'' True False)\<rparr>) =
      (Inl EOF, blockSource [] [])"
    by (simp add: fbr_next_def blockSource_def)
  show ?thesis
    using nextBlockInFile_unexpected_end [OF a] a
    by (simp add: blockHeader_def)
qed

text \<open>
  Claim C7. When an advance within the current file fetches a record whose \<open>first\<close> flag is
  set or whose name is not the current file's, \<open>nextBlockInFile\<close> fails with the
  invalid-file-block error and the walker keeps its current record. Both callers stop
  there: the advance to the next file fails with the same error, and a read that has used
  up the current block returns no bytes and that error, leaving the block source as the
  fetch left it, with the payload of the offending block unread.
\<close>

theorem nextBlockInFile_rejects_foreign_block:
  assumes "fbr_next (pf_r f) = (Inr nh, s)"
    and "pf_h f = Some c"
    and "firstBlock nh \<or> Name nh \<noteq> Name c"
  shows "nextBlockInFile f = (Some errInvalidFileBlock, f\<lparr>pf_r := s\<rparr>) \<and>
     pf_h (snd (nextBlockInFile f)) = Some c \<and>
     (\<not> lastBlock c \<longrightarrow> packed_next f = (Inl errInvalidFileBlock, f\<lparr>pf_r := s\<rparr>)) \<and>
     (\<not> lastBlock c \<and> fbr_cur (pf_r f) = [] \<longrightarrow>
        packed_Read f k = (([], Some errInvalidFileBlock), f\<lparr>pf_r := s\<rparr>))"
proof -
  have nb: "nextBlockInFile f = (Some errInvalidFileBlock, f\<lparr>pf_r := s\<rparr>)"
    using assms by (auto simp: nextBlockInFile_def)
  have "packed_next f = (Inl errInvalidFileBlock, f\<lparr>pf_r := s\<rparr>)" if "\<not> lastBlock c"
    using that nb assms(2) by (simp add: packed_next_def skipToLast.simps [of f])
  moreover have "packed_Read f k = (([], Some errInvalidFileBlock), f\<lparr>pf_r := s\<rparr>)"
    if "\<not> lastBlock c" "fbr_cur (pf_r f) = []"
    using that nb assms(2) by (simp add: packed_Read_def fbr_Read_empty)
  ultimately show ?thesis using nb assms(2) by simp
qed

theorem nextBlockInFile_rejects_foreign_block_witness:
  "nextBlockInFile
     \<lparr>pf_r = blockSource [] [Inr \<lparr>b_hdr = blockHeader ''b.txt'' False True, b_data = [7]\<rparr>],
      pf_h = Some (blockHeader ''a.txt'' True False)\<rparr> =
   (Some errInvalidFileBlock,
     \<lparr>pf_r = blockSource [7] [], pf_h = Some (blockHeader ''a.txt'' True False)\<rparr>) \<and>
   packed_Read
     \<lparr>pf_r = blockSource [] [Inr \<lparr>b_hdr = blockHeader ''b.txt'' False True, b_data = [7]\<rparr>],
      pf_h = Some (blockHeader ''a.txt'' True False)\<rparr> 4 =
   (([], Some errInvalidFileBlock),
     \<lparr>pf_r = blockSource [7] [], pf_h = Some (blockHeader ''a.txt'' True False)\<rparr>)"
proof -
  let ?f = "\<lparr>pf_r = blockSource [] [Inr \<lparr>b_hdr = blockHeader ''b.txt'' False True, b_data = [7]\<rparr>],
      pf_h = Some (blockHeader ''a.txt'' True False)\<rparr>"
  have a: "fbr_next (pf_r ?f) = (Inr (blockHeader ''b.txt'' False True), blockSource [7] [])"
    by (simp add: fbr_next_def blockSource_def)
  have b: "pf_h ?f = Some (blockHeader ''a.txt'' True False)" by simp
  have c: "firstBlock (blockHeader ''b.txt'' False True) \<or>
      Name (blockHeader ''b.txt'' False True) \<noteq> Name (blockHeader ''a.txt'' True False)"
    by (simp add: blockHeader_def)
  have d: "\<not> lastBlock (blockHeader ''a.txt'' True False)" "fbr_cur (pf_r ?f) = []"
    by (simp_all add: blockHeader_def blockSource_def)
  show ?thesis
    using nextBlockInFile_rejects_foreign_block [OF a b c, of 4] d by simp
qed

text \<open>
  Claim C6. Let \<open>chain\<close> be what is left of the current file's chain (empty when there is no
  current record or its \<open>last\<close> flag is set) and \<open>rest\<close> what the block source holds after
  it. The advance to the next file passes over all of \<open>chain\<close>, whose final record is the
  one with \<open>last\<close> set, and then fetches the head of \<open>rest\<close>: with no entry left it returns
  plain end-of-stream; an error of the block source is passed on; a record without the
  \<open>first\<close> flag gives the invalid-file-block error; a record with it is returned and becomes
  the current record, its payload being the current block.
\<close>

theorem packed_next_advances_to_next_file:
  assumes "chain_from (pf_h f) chain"
    and "fbr_blocks (pf_r f) = map Inr chain @ rest"
  shows "case rest of
           [] \<Rightarrow> fst (packed_next f) = Inl EOF
         | Inl e # rest' \<Rightarrow>
             fst (packed_next f) = Inl e \<and> fbr_blocks (pf_r (snd (packed_next f))) = rest'
         | Inr b # rest' \<Rightarrow>
             fbr_blocks (pf_r (snd (packed_next f))) = rest' \<and>
             (if firstBlock (b_hdr b)
              then fst (packed_next f) = Inr (b_hdr b) \<and>
                   pf_h (snd (packed_next f)) = Some (b_hdr b) \<and>
                   fbr_cur (pf_r (snd (packed_next f))) = b_data b
              else fst (packed_next f) = Inl errInvalidFileBlock)"
proof -
  from packed_next_chain [OF assms]
  obtain f1 where f1: "fbr_blocks (pf_r f1) = rest"
    and pn: "packed_next f =
         (case fbr_next (pf_r f1) of
             (Inl err, s) \<Rightarrow> (Inl err, f1\<lparr>pf_r := s, pf_h := None\<rparr>)
           | (Inr nh, s) \<Rightarrow>
               if \<not> firstBlock nh then (Inl errInvalidFileBlock, f1\<lparr>pf_r := s, pf_h := Some nh\<rparr>)
               else (Inr nh, f1\<lparr>pf_r := s, pf_h := Some nh\<rparr>))"
    by blast
  show ?thesis
    unfolding pn using f1
    by (auto simp: fbr_next_def split: list.splits sum.splits)
qed

theorem packed_next_advances_to_next_file_witness:
  "chain_from (Some (blockHeader ''a.txt'' True False))
     [\<lparr>b_hdr = blockHeader ''a.txt'' False False, b_data = [1]\<rparr>,
      \<lparr>b_hdr = blockHeader ''a.txt'' False True, b_data = [2]\<rparr>] \<and>
   fst (packed_next
     \<lparr>pf_r = blockSource [0]
        [Inr \<lparr>b_hdr = blockHeader ''a.txt'' False False, b_data = [1]\<rparr>,
         Inr \<lparr>b_hdr = blockHeader ''a.txt'' False True, b_data = [2]\<rparr>,
         Inr \<lparr>b_hdr = blockHeader ''b.txt'' True True, b_data = [3]\<rparr>],
      pf_h = Some (blockHeader ''a.txt'' True False)\<rparr>) = Inr (blockHeader ''b.txt'' True True)"
proof -
  let ?chain = "[\<lparr>b_hdr = blockHeader ''a.txt'' False False, b_data = [1]\<rparr>,
      \<lparr>b_hdr = blockHeader ''a.txt'' False True, b_data = [2::byte]\<rparr>]"
  let ?rest = "[Inr \<lparr>b_hdr = blockHeader ''b.txt'' True True, b_data = [3::byte]\<rparr>] :: (error + block) list"
  let ?f = "\<lparr>pf_r = blockSource [0] (map Inr ?chain @ ?rest),
      pf_h = Some (blockHeader ''a.txt'' True False)\<rparr>"
  have a: "chain_from (pf_h ?f) ?chain" by (simp add: blockHeader_def)
  have b: "fbr_blocks (pf_r ?f) = map Inr ?chain @ ?rest" by (simp add: blockSource_def)
  have c: "firstBlock (blockHeader ''b.txt'' True True)" by (simp add: blockHeader_def)
  show ?thesis
    using packed_next_advances_to_next_file [OF a b] a c by simp
qed

text \<open>
  Claim C1. Take a walker whose current block still has the bytes \<open>fbr_cur\<close> unread and
  whose file continues with the blocks \<open>chain\<close>, of any number and of any sizes, empty ones
  included. Reading it to exhaustion with any non-empty buffer returns, and what it has
  delivered is those unread bytes followed by the payloads of the blocks of \<open>chain\<close> in
  order, ending with plain end-of-stream and leaving the blocks after the chain in the
  source. Moreover, whenever a read reports end-of-stream it carries no bytes and the
  walker is then at a record with \<open>last\<close> set (or has no record), with nothing unread in
  that block: an empty block that is not the last never ends the stream.
\<close>

theorem packed_stream_is_concatenation:
  assumes "chain_from (pf_h f) chain"
    and "fbr_blocks (pf_r f) = map Inr chain @ rest"
    and "0 < k"
  shows "(\<exists>f'. readAll packed_Read k f [] =
              Some ((fbr_cur (pf_r f) @ concat (map b_data chain), EOF), f') \<and>
            fbr_blocks (pf_r f') = rest) \<and>
     (\<forall>g n bs g'. packed_Read g n = ((bs, Some EOF), g') \<longrightarrow>
        bs = [] \<and> fbr_cur (pf_r g') = [] \<and>
        (case pf_h g' of None \<Rightarrow> True | Some c \<Rightarrow> lastBlock c))"
proof -
  from packed_readAll [OF assms, of "[]"]
  have "\<exists>f'. readAll packed_Read k f [] =
              Some ((fbr_cur (pf_r f) @ concat (map b_data chain), EOF), f') \<and>
            fbr_blocks (pf_r f') = rest"
    by auto
  then show ?thesis using packed_Read_EOF_only_at_last by blast
qed

theorem packed_stream_is_concatenation_witness:
  "chain_from (Some (blockHeader ''a.txt'' True False))
     [\<lparr>b_hdr = blockHeader ''a.txt'' False False, b_data = []\<rparr>,
      \<lparr>b_hdr = blockHeader ''a.txt'' False True, b_data = [3, 4, 5]\<rparr>] \<and> (0::nat) < 2 \<and>
   (\<exists>f'. readAll packed_Read 2
     \<lparr>pf_r = blockSource [1, 2]
        [Inr \<lparr>b_hdr = blockHeader ''a.txt'' False False, b_data = []\<rparr>,
         Inr \<lparr>b_hdr = blockHeader ''a.txt'' False True, b_data = [3, 4, 5]\<rparr>,
         Inr \<lparr>b_hdr = blockHeader ''b.txt'' True True, b_data = [9]\<rparr>],
      pf_h = Some (blockHeader ''a.txt'' True False)\<rparr> [] =
     Some (([1, 2, 3, 4, 5], EOF), f'))"
proof -
  let ?chain = "[\<lparr>b_hdr = blockHeader ''a.txt'' False False, b_data = []\<rparr>,
      \<lparr>b_hdr = blockHeader ''a.txt'' False True, b_data = [3, 4, 5::byte]\<rparr>]"
  let ?rest = "[Inr \<lparr>b_hdr = blockHeader ''b.txt'' True True, b_data = [9::byte]\<rparr>] :: (error + block) list"
  let ?f = "\<lparr>pf_r = blockSource [1, 2] (map Inr ?chain @ ?rest),
      pf_h = Some (blockHeader ''a.txt'' True False)\<rparr>"
  have a: "chain_from (pf_h ?f) ?chain" by (simp add: blockHeader_def)
  have b: "fbr_blocks (pf_r ?f) = map Inr ?chain @ ?rest" by (simp add: blockSource_def)
  have c: "(0::nat) < 2" by simp
  have d: "fbr_cur (pf_r ?f) = [1, 2]" by (simp add: blockSource_def)
  show ?thesis
    using packed_stream_is_concatenation [OF a b c, THEN conjunct1] a d by auto
qed

section \<open>Properties of the layered readers\<close>

subsection \<open>A read never returns more than it was asked for\<close>

lemma chunk_Read_length: "chunk_Read m e xs k = ((bs, err), rest) \<Longrightarrow> length bs \<le> k"
  by (auto simp: chunk_Read_def Let_def split: if_splits)

lemma fbr_Read_length: "fbr_Read s k = ((bs, err), s') \<Longrightarrow> length bs \<le> k"
  by (auto simp: fbr_Read_def split: prod.splits dest: chunk_Read_length)

lemma readLoop_length:
  "readLoop f k res = ((bs, err), f') \<Longrightarrow> length (fst res) \<le> k \<Longrightarrow> length bs \<le> k"
proof (induction f k res arbitrary: bs err f' rule: readLoop.induct)
  case (1 f k cs e)
  show ?case
  proof (cases "e = Some EOF \<and> cs = [] \<and> \<not> (case pf_h f of None \<Rightarrow> True | Some x \<Rightarrow> lastBlock x)")
    case False
    with "1.prems" show ?thesis by (auto split: if_splits)
  next
    case True
    obtain x f1 where nb: "nextBlockInFile f = (x, f1)" by (cases "nextBlockInFile f")
    show ?thesis
    proof (cases x)
      case (Some a)
      with True nb "1.prems" show ?thesis by auto
    next
      case None
      obtain res' s where rd: "fbr_Read (pf_r f1) k = (res', s)" by (cases "fbr_Read (pf_r f1) k")
      have run: "readLoop (f1\<lparr>pf_r := s\<rparr>) k res' = ((bs, err), f')"
        using True nb None rd "1.prems"(1) by simp
      have len: "length (fst res') \<le> k" using rd fbr_Read_length [of "pf_r f1" k "fst res'" "snd res'" s] by simp
      from True have t: "e = Some EOF" "\<not> 0 < length cs"
        "\<not> (case pf_h f of None \<Rightarrow> True | Some x \<Rightarrow> lastBlock x)" by auto
      from "1.IH" [OF t nb [symmetric] None rd [symmetric] run len] show ?thesis .
    qed
  qed
qed

lemma packed_Read_length: "packed_Read f k = ((bs, err), f') \<Longrightarrow> length bs \<le> k"
proof -
  assume a: "packed_Read f k = ((bs, err), f')"
  obtain res s where rd: "fbr_Read (pf_r f) k = (res, s)" by (cases "fbr_Read (pf_r f) k")
  have len: "length (fst res) \<le> k" using rd fbr_Read_length [of "pf_r f" k "fst res" "snd res" s] by simp
  from a rd have "readLoop (f\<lparr>pf_r := s\<rparr>) k res = ((bs, err), f')" by (simp add: packed_Read_def)
  from readLoop_length [OF this len] show ?thesis .
qed

lemma src_Read_length: "src_Read ci r k f = ((bs, err), r', f') \<Longrightarrow> length bs \<le> k"
proof (induction ci r k f arbitrary: bs err r' f' rule: src_Read.induct)
  case (1 ci k f)
  then show ?case by (auto split: prod.splits dest: packed_Read_length)
next
  case (2 ci r ky v off k f)
  then show ?case by (auto split: prod.splits)
qed

lemma length_decode_bytes [simp]: "length (decode_bytes dec dict bs) = length bs"
  by (induction bs arbitrary: dict) simp_all

lemma decode_Read_length: "decode_Read ci d k f = ((bs, err), d', f') \<Longrightarrow> length bs \<le> k"
  by (auto simp: decode_Read_def split: option.splits prod.splits dest: src_Read_length)

lemma limited_Read_length:
  assumes "\<And>k2 w2 bs2 err2 r2 w3. rd (l_r l) k2 w2 = ((bs2, err2), r2, w3) \<Longrightarrow> length bs2 \<le> k2"
    and "limited_Read rd l k w = ((bs, err), l', w')"
  shows "length bs \<le> k"
proof (cases "l_n l \<le> 0")
  case True
  with assms(2) show ?thesis by (simp add: limited_Read_def)
next
  case False
  define k' where "k' = (if int k > l_n l then nat (l_n l) else k)"
  have k': "k' \<le> k" using False by (auto simp: k'_def)
  obtain bs2 err2 r2 w3 where i: "rd (l_r l) k' w = ((bs2, err2), r2, w3)"
    by (metis prod.exhaust)
  have "bs = bs2" using assms(2) False i unfolding limited_Read_def k'_def [symmetric] Let_def
    by (auto split: if_splits)
  with assms(1) [OF i] k' show ?thesis by simp
qed

lemma reader_Read_length: "reader_Read ci r k R = ((bs, err), r', R') \<Longrightarrow> length bs \<le> k"
proof (induction ci r k R arbitrary: bs err r' R' rule: reader_Read.induct)
  case (1 ci k R)
  then show ?case by simp
next
  case (2 ci xs k R)
  then show ?case by (auto split: prod.splits dest: chunk_Read_length)
next
  case (3 ci s k R)
  then show ?case by (auto split: prod.splits dest: src_Read_length)
next
  case (4 ci k R)
  then show ?case by (auto split: prod.splits dest: decode_Read_length)
next
  case (5 ci l k R)
  obtain l' where "limited_Read (reader_Read ci) l k R = ((bs, err), l', R')"
    using "5.prems" by (auto split: prod.splits)
  then show ?case using "5.IH" by (rule limited_Read_length [rotated]) blast
next
  case (6 ci r k R)
  then show ?case by (auto split: prod.splits)
qed

lemma nextBlockInFile_left:
  "nextBlockInFile f = (None, f') \<Longrightarrow> walker_left f' < walker_left f"
  by (auto simp: nextBlockInFile_def fbr_next_def walker_left_def
           split: list.splits sum.splits if_splits option.splits)

lemma nextBlockInFile_left_le:
  "nextBlockInFile f = (x, f') \<Longrightarrow> walker_left f' \<le> walker_left f"
  by (auto simp: nextBlockInFile_def fbr_next_def walker_left_def
           split: list.splits sum.splits if_splits option.splits)

lemma fbr_Read_left:
  "fbr_Read s k = ((bs, err), s') \<Longrightarrow>
     length (fbr_cur s') + length bs = length (fbr_cur s) \<and> fbr_blocks s' = fbr_blocks s"
  by (auto simp: fbr_Read_def chunk_Read_def Let_def split: if_splits)

lemma fbr_Read_None_nonempty:
  "fbr_Read s k = ((bs, None), s') \<Longrightarrow> 0 < k \<Longrightarrow> bs \<noteq> []"
  by (auto simp: fbr_Read_def chunk_Read_def Let_def min_def split: if_splits)

lemma fbr_Read_error_is_EOF:
  "fbr_Read s k = ((bs, Some e), s') \<Longrightarrow> e = EOF"
  by (auto simp: fbr_Read_def chunk_Read_def Let_def split: if_splits)

lemma walker_left_fbr_Read:
  "fbr_Read (pf_r f) k = ((bs, err), s) \<Longrightarrow>
     walker_left (f\<lparr>pf_r := s\<rparr>) + length bs = walker_left f"
  using fbr_Read_left [of "pf_r f" k bs err s] by (simp add: walker_left_def)

lemma readLoop_left:
  "readLoop f k res = (out, f') \<Longrightarrow>
     walker_left f' \<le> walker_left f \<and>
     (fst res = [] \<and> snd res = Some EOF \<and> snd out = None \<longrightarrow> walker_left f' < walker_left f)"
proof (induction f k res arbitrary: out f' rule: readLoop.induct)
  case (1 f k cs e)
  show ?case
  proof (cases "e = Some EOF \<and> cs = [] \<and> \<not> (case pf_h f of None \<Rightarrow> True | Some x \<Rightarrow> lastBlock x)")
    case False
    with "1.prems" show ?thesis by (auto split: if_splits)
  next
    case True
    obtain x f1 where nb: "nextBlockInFile f = (x, f1)" by (cases "nextBlockInFile f")
    show ?thesis
    proof (cases x)
      case (Some a)
      with True nb "1.prems" nextBlockInFile_left_le [OF nb] show ?thesis by auto
    next
      case None
      obtain res' s where rd: "fbr_Read (pf_r f1) k = (res', s)" by (cases "fbr_Read (pf_r f1) k")
      have run: "readLoop (f1\<lparr>pf_r := s\<rparr>) k res' = (out, f')"
        using True nb None rd "1.prems"(1) by simp
      from True have t: "e = Some EOF" "\<not> 0 < length cs"
        "\<not> (case pf_h f of None \<Rightarrow> True | Some x \<Rightarrow> lastBlock x)" by auto
      from "1.IH" [OF t nb [symmetric] None rd [symmetric] run]
      have a: "walker_left f' \<le> walker_left (f1\<lparr>pf_r := s\<rparr>)" by simp
      have b: "walker_left (f1\<lparr>pf_r := s\<rparr>) \<le> walker_left f1"
        using walker_left_fbr_Read [of f1 k "fst res'" "snd res'" s] rd by simp
      have c: "walker_left f1 < walker_left f"
        using nb None by (simp add: nextBlockInFile_left)
      from a b c show ?thesis by simp
    qed
  qed
qed

lemma packed_Read_left:
  assumes "packed_Read f k = ((bs, None), f')" and "0 < k"
  shows "walker_left f' < walker_left f"
proof -
  obtain cs e s where rd: "fbr_Read (pf_r f) k = ((cs, e), s)"
    by (metis prod.exhaust)
  have run: "readLoop (f\<lparr>pf_r := s\<rparr>) k (cs, e) = ((bs, None), f')"
    using assms(1) rd by (simp add: packed_Read_def)
  note l = readLoop_left [OF run]
  note w = walker_left_fbr_Read [OF rd]
  show ?thesis
  proof (cases "cs = []")
    case False
    then have "0 < length cs" by simp
    with l [THEN conjunct1] w show ?thesis by linarith
  next
    case True
    have "e = Some EOF"
    proof (cases e)
      case None
      with rd True assms(2) fbr_Read_None_nonempty show ?thesis by blast
    next
      case (Some x)
      with rd fbr_Read_error_is_EOF show ?thesis by blast
    qed
    with True l w show ?thesis by simp
  qed
qed

lemma src_Read_left:
  "src_Read ci r k f = ((bs, None), r', f') \<Longrightarrow> 0 < k \<Longrightarrow> walker_left f' < walker_left f"
proof (induction ci r k f arbitrary: bs r' f' rule: src_Read.induct)
  case (1 ci k f)
  then show ?case by (auto split: prod.splits dest: packed_Read_left)
next
  case (2 ci r ky v off k f)
  then show ?case by (auto split: prod.splits)
qed

lemma decode_Read_left:
  "decode_Read ci d k f = ((bs, None), d', f') \<Longrightarrow> 0 < k \<Longrightarrow> walker_left f' < walker_left f"
  by (auto simp: decode_Read_def split: option.splits prod.splits dest: src_Read_left)

lemma chunk_Read_left:
  "chunk_Read m e xs k = ((bs, None), rest) \<Longrightarrow> 0 < k \<Longrightarrow> length rest < length xs"
  by (auto simp: chunk_Read_def Let_def min_def split: if_splits)

lemma reader_Read_keeps_walker_measure:
  "reader_left r (R\<lparr>rd_cksum := c\<rparr>) = reader_left r R"
  by (induction r R rule: reader_left.induct) simp_all

lemma reader_Read_left:
  "reader_Read ci r k R = ((bs, None), r', R') \<Longrightarrow> 0 < k \<Longrightarrow>
     reader_left r' R' < reader_left r R"
proof (induction ci r k R arbitrary: bs r' R' rule: reader_Read.induct)
  case (1 ci k R)
  then show ?case by simp
next
  case (2 ci xs k R)
  then show ?case by (auto split: prod.splits dest: chunk_Read_left)
next
  case (3 ci s k R)
  then show ?case by (auto split: prod.splits dest: src_Read_left)
next
  case (4 ci k R)
  then show ?case by (auto split: prod.splits dest: decode_Read_left)
next
  case (5 ci l k R)
  obtain l' where lr: "limited_Read (reader_Read ci) l k R = ((bs, None), l', R')"
    and r': "r' = Limited l'"
    using "5.prems" by (auto split: prod.splits)
  have pos: "\<not> l_n l \<le> 0" using lr by (auto simp: limited_Read_def)
  define k' where "k' = (if int k > l_n l then nat (l_n l) else k)"
  have k': "0 < k'" using pos "5.prems"(2) by (auto simp: k'_def)
  obtain bs2 err2 r2 w3 where i: "reader_Read ci (l_r l) k' R = ((bs2, err2), r2, w3)"
    by (metis prod.exhaust)
  have "bs2 = bs \<and> err2 = None \<and> l_r l' = r2 \<and> w3 = R'"
    using lr pos i unfolding limited_Read_def k'_def [symmetric] Let_def
    by (auto split: if_splits)
  with i have "reader_Read ci (l_r l) k' R = ((bs, None), l_r l', R')" by simp
  from "5.IH" [OF this k'] r' show ?case by simp
next
  case (6 ci r k R)
  then show ?case
    by (auto split: prod.splits if_splits simp: reader_Read_keeps_walker_measure)
qed

lemma chain_readAll_returns:
  assumes "0 < k"
  shows "\<exists>y. readAll (chain_Read ci) k (r, R) acc = Some y"
proof (induction "reader_left r R" arbitrary: r R acc rule: less_induct)
  case less
  obtain bs err r' R' where rr: "reader_Read ci r k R = ((bs, err), r', R')"
    by (metis prod.exhaust)
  show ?case
  proof (cases err)
    case (Some e)
    with rr show ?thesis by (subst readAll.simps) (simp add: chain_Read_def)
  next
    case None
    with rr assms have "reader_left r' R' < reader_left r R" by (simp add: reader_Read_left)
    from less.hyps [OF this, of "acc @ bs"] rr None show ?thesis
      by (subst readAll.simps) (simp add: chain_Read_def)
  qed
qed




lemma discardBufSize_pos: "0 < discardBufSize"
  by (simp add: discardBufSize_def)

lemma io_Copy_Discard_returns: "\<exists>y. io_Copy_Discard ci r R = Some y"
proof -
  from chain_readAll_returns [OF discardBufSize_pos, of ci r R "[]"]
  obtain y where "readAll (chain_Read ci) discardBufSize (r, R) [] = Some y" by blast
  then show ?thesis by (cases y) (auto simp: io_Copy_Discard_def split: prod.splits)
qed





lemma Reader_Next_returns: "\<exists>y. Reader_Next ci R = Some y"
proof (cases "rd_solidr R")
  case None
  then show ?thesis by (simp add: Reader_Next_def drain_pending_def)
next
  case (Some s)
  from io_Copy_Discard_returns [of ci s R] obtain e s' R' where
    "io_Copy_Discard ci s R = Some (e, s', R')" by (metis prod.exhaust)
  with Some show ?thesis by (cases e) (simp_all add: Reader_Next_def drain_pending_def)
qed

lemma limited_Read_frame:
  assumes "\<And>k2 w2. rd (l_r l) k2 (g w2) = (case rd (l_r l) k2 w2 of (res, r', w') \<Rightarrow> (res, r', g w'))"
  shows "limited_Read rd l k (g w) = (case limited_Read rd l k w of (res, l', w') \<Rightarrow> (res, l', g w'))"
  by (simp add: limited_Read_def assms Let_def split: prod.splits)

lemma reader_Read_frame:
  "reader_Read ci r k (R\<lparr>rd_r := x\<rparr>) =
     (case reader_Read ci r k R of (res, r', R') \<Rightarrow> (res, r', R'\<lparr>rd_r := x\<rparr>))"
proof (induction ci r k R rule: reader_Read.induct)
  case (5 ci l k R)
  have "limited_Read (reader_Read ci) l k (R\<lparr>rd_r := x\<rparr>) =
      (case limited_Read (reader_Read ci) l k R of (res, l', w') \<Rightarrow> (res, l', w'\<lparr>rd_r := x\<rparr>))"
    by (rule limited_Read_frame [where g = "\<lambda>w. w\<lparr>rd_r := x\<rparr>"]) (rule "5.IH")
  then show ?case by (simp split: prod.splits)
qed (auto split: prod.splits)

lemma reader_left_frame [simp]: "reader_left r (R\<lparr>rd_r := x\<rparr>) = reader_left r R"
  by (induction r R rule: reader_left.induct) simp_all

lemma limited_Read_cksum:
  assumes "\<And>k2 w2 res r2 w3. rd (l_r l) k2 w2 = (res, r2, w3) \<Longrightarrow> P w2 \<Longrightarrow> P w3"
    and "limited_Read rd l k w = (res, l', w')" and "P w"
  shows "P w'"
proof (cases "l_n l \<le> 0")
  case True
  with assms(2,3) show ?thesis by (simp add: limited_Read_def)
next
  case False
  define k' where "k' = (if int k > l_n l then nat (l_n l) else k)"
  obtain res2 r2 w3 where i: "rd (l_r l) k' w = (res2, r2, w3)" by (metis prod.exhaust)
  have "w' = w3" using assms(2) False i unfolding limited_Read_def k'_def [symmetric] Let_def
    by (cases res2) (auto split: if_splits)
  with assms(1) [OF i assms(3)] show ?thesis by simp
qed

lemma reader_Read_keeps_sink:
  "reader_Read ci r k R = (res, r', R') \<Longrightarrow> rd_cksum R \<noteq> None \<Longrightarrow> rd_cksum R' \<noteq> None"
proof (induction ci r k R arbitrary: res r' R' rule: reader_Read.induct)
  case (5 ci l k R)
  obtain l' where lr: "limited_Read (reader_Read ci) l k R = (res, l', R')"
    using "5.prems" by (auto split: prod.splits)
  show ?case
    by (rule limited_Read_cksum [where P = "\<lambda>w. rd_cksum w \<noteq> None", OF _ lr "5.prems"(2)])
       (rule "5.IH")
qed (auto split: prod.splits if_splits)

lemma Reader_Read_via_chain:
  assumes "reader_Read ci r k S = ((bs, err), r1, S1)"
  shows "Reader_Read ci (S\<lparr>rd_r := r\<rparr>) k =
     ((bs, if err = Some EOF \<and> (case rd_cksum S1 of None \<Rightarrow> False | Some c \<Rightarrow> \<not> valid c)
           then Some errBadFileChecksum else err),
      S1\<lparr>rd_r := r1\<rparr>)"
  using assms by (simp add: Reader_Read_def reader_Read_frame)

lemma Reader_readAll_lockstep:
  assumes "0 < k"
    and "readAll (chain_Read ci) k (r, S) acc = Some ((out, e), (r', S'))"
  shows "readAll (Reader_Read ci) k (S\<lparr>rd_r := r\<rparr>) acc =
     Some ((out, if e = EOF \<and> (case rd_cksum S' of None \<Rightarrow> False | Some c \<Rightarrow> \<not> valid c)
                 then errBadFileChecksum else e),
           S'\<lparr>rd_r := r'\<rparr>)"
  using assms(2)
proof (induction "reader_left r S" arbitrary: r S acc rule: less_induct)
  case less
  obtain bs err r1 S1 where rr: "reader_Read ci r k S = ((bs, err), r1, S1)"
    by (metis prod.exhaust)
  note RR = Reader_Read_via_chain [OF rr]
  have unf: "readAll (chain_Read ci) k (r, S) acc =
      (case err of None \<Rightarrow> readAll (chain_Read ci) k (r1, S1) (acc @ bs)
       | Some e \<Rightarrow> Some ((acc @ bs, e), (r1, S1)))"
    using rr by (subst readAll.simps) (simp add: chain_Read_def split: option.splits)
  show ?case
  proof (cases err)
    case None
    from reader_Read_left [OF rr [unfolded None] assms(1)]
    have m: "reader_left r1 S1 < reader_left r S" .
    have "readAll (chain_Read ci) k (r1, S1) (acc @ bs) = Some ((out, e), (r', S'))"
      using less.prems unf None by simp
    from less.hyps [OF m this] RR None show ?thesis
      by (subst readAll.simps) simp
  next
    case (Some x)
    with less.prems unf have "x = e" "out = acc @ bs" "r1 = r'" "S1 = S'" by simp_all
    with RR Some show ?thesis by (subst readAll.simps) auto
  qed
qed

lemma chain_readAll_keeps_sink:
  assumes "0 < k"
    and "readAll (chain_Read ci) k (r, S) acc = Some (y, (r', S'))"
    and "rd_cksum S \<noteq> None"
  shows "rd_cksum S' \<noteq> None"
  using assms(2,3)
proof (induction "reader_left r S" arbitrary: r S acc rule: less_induct)
  case less
  obtain bs err r1 S1 where rr: "reader_Read ci r k S = ((bs, err), r1, S1)"
    by (metis prod.exhaust)
  have keep: "rd_cksum S1 \<noteq> None" using rr less.prems(2) by (rule reader_Read_keeps_sink)
  have unf: "readAll (chain_Read ci) k (r, S) acc =
      (case err of None \<Rightarrow> readAll (chain_Read ci) k (r1, S1) (acc @ bs)
       | Some e \<Rightarrow> Some ((acc @ bs, e), (r1, S1)))"
    using rr by (subst readAll.simps) (simp add: chain_Read_def split: option.splits)
  show ?case
  proof (cases err)
    case None
    from reader_Read_left [OF rr [unfolded None] assms(1)]
    have m: "reader_left r1 S1 < reader_left r S" .
    have "readAll (chain_Read ci) k (r1, S1) (acc @ bs) = Some (y, (r', S'))"
      using less.prems unf None by simp
    from less.hyps [OF m this keep] show ?thesis .
  next
    case (Some x)
    with less.prems unf keep show ?thesis by simp
  qed
qed

lemma limited_Read_bound:
  assumes len: "\<And>k2 w2 bs2 err2 r2 w3. rd (l_r l) k2 w2 = ((bs2, err2), r2, w3) \<Longrightarrow> length bs2 \<le> k2"
    and run: "limited_Read rd l k w = ((bs, err), l', w')"
    and n: "0 \<le> l_n l" and se: "shortErr l \<noteq> EOF"
  shows "l_n l' = l_n l - int (length bs) \<and> shortErr l' = shortErr l \<and>
     int (length bs) \<le> l_n l \<and> (err = Some EOF \<longrightarrow> l_n l = int (length bs))"
proof (cases "l_n l \<le> 0")
  case True
  with run n show ?thesis by (auto simp: limited_Read_def)
next
  case False
  define k' where "k' = (if int k > l_n l then nat (l_n l) else k)"
  have k': "int k' \<le> l_n l" using False by (auto simp: k'_def)
  obtain bs2 err2 r2 w3 where i: "rd (l_r l) k' w = ((bs2, err2), r2, w3)"
    by (metis prod.exhaust)
  have b: "int (length bs2) \<le> l_n l" using len [OF i] k' by linarith
  show ?thesis
    using run False i b se unfolding limited_Read_def k'_def [symmetric] Let_def
    by (auto split: if_splits)
qed

lemma reader_Read_bound:
  "reader_Read ci r k R = ((bs, err), r', R') \<Longrightarrow> bound_of r = Some (n, se) \<Longrightarrow>
   0 \<le> n \<Longrightarrow> se \<noteq> EOF \<Longrightarrow>
     bound_of r' = Some (n - int (length bs), se) \<and> int (length bs) \<le> n \<and>
     (err = Some EOF \<longrightarrow> n = int (length bs))"
proof (induction ci r k R arbitrary: bs err r' R' rule: reader_Read.induct)
  case (5 ci l k R)
  obtain l' where lr: "limited_Read (reader_Read ci) l k R = ((bs, err), l', R')"
    and r': "r' = Limited l'"
    using "5.prems"(1) by (auto split: prod.splits)
  have n: "0 \<le> l_n l" "shortErr l \<noteq> EOF" "l_n l = n" "shortErr l = se"
    using "5.prems" by simp_all
  from limited_Read_bound [OF _ lr n(1,2)] reader_Read_length
  have "l_n l' = l_n l - int (length bs) \<and> shortErr l' = shortErr l \<and>
     int (length bs) \<le> l_n l \<and> (err = Some EOF \<longrightarrow> l_n l = int (length bs))"
    by blast
  with r' n show ?case by simp
next
  case (6 ci r k R)
  then show ?case by (auto split: prod.splits)
qed simp_all

lemma Reader_readAll_bound:
  assumes "0 < k"
    and "readAll (Reader_Read ci) k R acc = Some ((out, e), R')"
    and "bound_of (rd_r R) = Some (n, se)" and "0 \<le> n" and "se \<noteq> EOF"
  shows "int (length out) \<le> int (length acc) + n \<and>
     (e = EOF \<longrightarrow> int (length out) = int (length acc) + n)"
  using assms(2,3,4)
proof (induction "reader_left (rd_r R) R" arbitrary: R acc n rule: less_induct)
  case less
  obtain bs err r1 S1 where rr: "reader_Read ci (rd_r R) k R = ((bs, err), r1, S1)"
    by (metis prod.exhaust)
  from Reader_Read_via_chain [OF rr]
  have RR: "Reader_Read ci R k =
     ((bs, if err = Some EOF \<and> (case rd_cksum S1 of None \<Rightarrow> False | Some c \<Rightarrow> \<not> valid c)
           then Some errBadFileChecksum else err),
      S1\<lparr>rd_r := r1\<rparr>)" by simp
  from reader_Read_bound [OF rr less.prems(2,3) assms(5)]
  have b: "bound_of r1 = Some (n - int (length bs), se)" "int (length bs) \<le> n"
    "err = Some EOF \<longrightarrow> n = int (length bs)" by simp_all
  show ?case
  proof (cases err)
    case None
    from reader_Read_left [OF rr [unfolded None] assms(1)]
    have m: "reader_left (rd_r (S1\<lparr>rd_r := r1\<rparr>)) (S1\<lparr>rd_r := r1\<rparr>) < reader_left (rd_r R) R"
      by simp
    have ra: "readAll (Reader_Read ci) k (S1\<lparr>rd_r := r1\<rparr>) (acc @ bs) = Some ((out, e), R')"
      using less.prems(1) RR None by (subst (asm) readAll.simps) simp
    have b1: "bound_of (rd_r (S1\<lparr>rd_r := r1\<rparr>)) = Some (n - int (length bs), se)"
      using b by simp
    have b2: "0 \<le> n - int (length bs)" using b by simp
    from less.hyps [OF m ra b1 b2] show ?thesis by simp
  next
    case (Some x)
    have "out = acc @ bs \<and> (e = EOF \<longrightarrow> x = EOF)"
      using less.prems(1) RR Some by (subst (asm) readAll.simps) (auto split: if_splits)
    with b Some show ?thesis by auto
  qed
qed

lemma Reader_readAll_returns:
  assumes "0 < k"
  shows "\<exists>y. readAll (Reader_Read ci) k R acc = Some y"
proof -
  from chain_readAll_returns [OF assms, of ci "rd_r R" R acc]
  obtain out e r' S' where "readAll (chain_Read ci) k (rd_r R, R) acc = Some ((out, e), (r', S'))"
    by (metis prod.exhaust)
  from Reader_readAll_lockstep [OF assms this] show ?thesis by simp
qed

lemma limited_short:
  assumes "0 < n"
    and "reader_Read ci inner (if int k > n then nat n else k) R = ((bs, Some EOF), inner', R1)"
    and "int (length bs) < n"
  shows "reader_Read ci (Limited (limitReader inner n se)) k R =
     ((bs, Some se), Limited (limitReader inner' (n - int (length bs)) se), R1)"
  using assms by (cases "n < int k") (simp_all add: limited_Read_def limitReader_def)

text \<open>The definitions that evaluating an example unfolds.\<close>

lemmas example_defs =
  Reader_Next_def drain_pending_def io_Copy_Discard_def readAll.simps chain_Read_def
  decode_Read_def packed_Read_def fbr_Read_def chunk_Read_def solidSource_def blockSource_def
  Let_def discardBufSize_def blockHeader_def countingDecoder_def plainCipher_def
  solidHeader_def pendingReader_def checkedReader_def sizedHeader_def sizedArchive_def
  afterNext_def Next_advance_def packed_next_def fbr_next_def new_Reader_def Reader_init_def
  decode_init_def Reader_Read_def limitReader_def limited_Read_def isSolid_def
  nextBlockInFile_def cksum_Write_def valid_def newAesDecryptReader_def skipToLast.simps



text \<open>
  Claim C10. The \<^verbatim>\<open>Reader\<close> that \<^verbatim>\<open>NewReader\<close> hands out answers every read, whatever the size of
  the buffer, with no bytes and plain end-of-stream, and is unchanged by it; so the same
  holds for every read before the first \<^verbatim>\<open>Next\<close>.
\<close>

theorem fresh_Reader_reads_plain_EOF:
  "Reader_Read ci (new_Reader fbr) k = (([], Some EOF), new_Reader fbr)"
  by (simp add: Reader_Read_def new_Reader_def Reader_init_def chunk_Read_def)

text \<open>
  Claim C9. Let the pending stream, if any, be drained without error, and let the walker
  hand out a record \<open>h\<close> that names a decoder. Then \<^verbatim>\<open>Next\<close> initialises the drained decode
  layer with the active reader (the walker, behind the decrypt layer when \<open>h\<close> has key and
  iv), the decoder of \<open>h\<close>, its window size and the reset flag \<open>\<not> solid h\<close>, and the decode
  layer it leaves is the result of that call. If the initialisation is refused, \<^verbatim>\<open>Next\<close>
  returns its error and no stream is pending. Otherwise \<^verbatim>\<open>Next\<close> succeeds; the decode layer
  holds this source, decoder and window size, and its dictionary is empty unless \<open>h\<close> is
  solid, in which case it is the dictionary after the drain; and the decode stream is the
  pending solid-drain target exactly when the block source says that the archive is solid,
  there being none otherwise.
\<close>

theorem Next_initialises_decode_layer:
  assumes "drain_pending ci R = Some (None, R1)"
    and "packed_next (rd_pr R1) = (Inr h, f)"
    and "decoder h = Some dec"
  shows "let src = (if length (key h) > 0 \<and> length (iv h) > 0
                    then newAesDecryptReader PackedRef (key h) (iv h) else PackedRef);
             ini = decode_init (rd_dr R1) src dec (winSize h) (\<not> solid h)
         in \<exists>res R'. Reader_Next ci R = Some (res, R') \<and> rd_dr R' = snd ini \<and>
              (case fst ini of
                 Some err \<Rightarrow> res = Inl err \<and> rd_solidr R' = None
               | None \<Rightarrow>
                   res = Inr (FileHeader.truncate h) \<and>
                   d_src (rd_dr R') = Some src \<and>
                   d_dec (rd_dr R') = Some dec \<and>
                   d_win (rd_dr R') = winSize h \<and>
                   d_dict (rd_dr R') = (if solid h then d_dict (rd_dr R1) else []) \<and>
                   rd_solidr R' = (if isSolid (pf_r f) then Some DecodeRef else None))"
  using assms
  by (cases "dec_initErr dec (winSize h) (\<not> solid h)")
     (simp_all add: Reader_Next_def Next_advance_def decode_init_def Let_def)

theorem Next_initialises_decode_layer_witness:
  "drain_pending plainCipher pendingReader =
     Some (None, pendingReader\<lparr>rd_pr := (rd_pr pendingReader)\<lparr>pf_r :=
        solidSource [] [Inr \<lparr>b_hdr = solidHeader ''b.txt'', b_data = [5]\<rparr>]\<rparr>,
        rd_dr := (rd_dr pendingReader)\<lparr>d_dict := [1, 3]\<rparr>\<rparr>) \<and>
   (\<exists>R'. Reader_Next plainCipher pendingReader =
            Some (Inr (FileHeader.truncate (solidHeader ''b.txt'')), R') \<and>
      d_src (rd_dr R') = Some PackedRef \<and> d_dict (rd_dr R') = [1, 3] \<and>
      rd_solidr R' = Some DecodeRef)"
proof -
  let ?R1 = "pendingReader\<lparr>rd_pr := (rd_pr pendingReader)\<lparr>pf_r :=
        solidSource [] [Inr \<lparr>b_hdr = solidHeader ''b.txt'', b_data = [5]\<rparr>]\<rparr>,
        rd_dr := (rd_dr pendingReader)\<lparr>d_dict := [1, 3]\<rparr>\<rparr>"
  have a: "drain_pending plainCipher pendingReader = Some (None, ?R1)"
    by (simp add: example_defs)
  have b: "packed_next (rd_pr ?R1) =
      (Inr (solidHeader ''b.txt''),
       \<lparr>pf_r = solidSource [5] [], pf_h = Some (solidHeader ''b.txt'')\<rparr>)"
    by (simp add: example_defs)
  have c: "decoder (solidHeader ''b.txt'') = Some countingDecoder"
    by (simp add: solidHeader_def)
  show ?thesis
    using Next_initialises_decode_layer [OF a b c] a
    by (simp add: example_defs)
qed

text \<open>
  Claim C4. Let a checksum sink be attached and let the caller read to exhaustion with a
  non-empty buffer. The assembled chain, read so, ends with some error; reading through
  \<^verbatim>\<open>Reader.Read\<close> returns as well, delivers the same bytes, and ends with the same error,
  except that end-of-stream becomes the bad-checksum error when the sink, asked after the
  last read, is not valid. The loop ends at its first error, so the error is reported once,
  by the read at which the chain is exhausted. For a single read: it returns the bytes the
  chain returned, and the chain's error with the same exception.
\<close>

theorem Read_reports_bad_checksum_at_end:
  assumes "rd_cksum R \<noteq> None" and "0 < k"
  shows "(\<exists>out e r' S' c.
            readAll (chain_Read ci) k (rd_r R, R) [] = Some ((out, e), (r', S')) \<and>
            rd_cksum S' = Some c \<and>
            readAll (Reader_Read ci) k R [] =
              Some ((out, if e = EOF \<and> \<not> valid c then errBadFileChecksum else e),
                    S'\<lparr>rd_r := r'\<rparr>)) \<and>
     (\<forall>bs err r1 S1.
        reader_Read ci (rd_r R) k R = ((bs, err), r1, S1) \<longrightarrow>
        (\<exists>c1. rd_cksum S1 = Some c1 \<and>
           Reader_Read ci R k =
             ((bs, if err = Some EOF \<and> \<not> valid c1 then Some errBadFileChecksum else err),
              S1\<lparr>rd_r := r1\<rparr>)))"
proof -
  from chain_readAll_returns [OF assms(2), of ci "rd_r R" R "[]"]
  obtain out e r' S' where
    ch: "readAll (chain_Read ci) k (rd_r R, R) [] = Some ((out, e), (r', S'))"
    by (metis prod.exhaust)
  from chain_readAll_keeps_sink [OF assms(2) ch assms(1)]
  obtain c where c: "rd_cksum S' = Some c" by auto
  from Reader_readAll_lockstep [OF assms(2) ch] c
  have "readAll (Reader_Read ci) k R [] =
      Some ((out, if e = EOF \<and> \<not> valid c then errBadFileChecksum else e), S'\<lparr>rd_r := r'\<rparr>)"
    by simp
  with ch c have first: "\<exists>out e r' S' c.
            readAll (chain_Read ci) k (rd_r R, R) [] = Some ((out, e), (r', S')) \<and>
            rd_cksum S' = Some c \<and>
            readAll (Reader_Read ci) k R [] =
              Some ((out, if e = EOF \<and> \<not> valid c then errBadFileChecksum else e),
                    S'\<lparr>rd_r := r'\<rparr>)"
    by blast
  have second: "\<exists>c1. rd_cksum S1 = Some c1 \<and>
           Reader_Read ci R k =
             ((bs, if err = Some EOF \<and> \<not> valid c1 then Some errBadFileChecksum else err),
              S1\<lparr>rd_r := r1\<rparr>)"
    if rr: "reader_Read ci (rd_r R) k R = ((bs, err), r1, S1)" for bs err r1 S1
  proof -
    from reader_Read_keeps_sink [OF rr assms(1)]
    obtain c1 where c1: "rd_cksum S1 = Some c1" by auto
    from Reader_Read_via_chain [OF rr] c1 show ?thesis by simp
  qed
  from first second show ?thesis by blast
qed

theorem Read_reports_bad_checksum_at_end_witness:
  "rd_cksum (checkedReader [9]) \<noteq> None \<and> (0::nat) < 8 \<and>
   (\<exists>fin. readAll (Reader_Read plainCipher) 8 (checkedReader [9]) [] =
      Some (([1, 2], errBadFileChecksum), fin)) \<and>
   (\<exists>fin. readAll (Reader_Read plainCipher) 8 (checkedReader [1, 2]) [] =
      Some (([1, 2], EOF), fin))"
proof -
  have a: "rd_cksum (checkedReader [9]) \<noteq> None" "rd_cksum (checkedReader [1, 2]) \<noteq> None"
    by (simp_all add: checkedReader_def)
  have b: "(0::nat) < 8" by simp
  show ?thesis
    using Read_reports_bad_checksum_at_end [OF a(1) b, of plainCipher, THEN conjunct1]
      Read_reports_bad_checksum_at_end [OF a(2) b, of plainCipher, THEN conjunct1] a
    by (simp add: example_defs)
qed

text \<open>
  Claim C5, as the code has it. The claim as stated is false for a header whose
  unknown-size flag is clear and whose unpacked size is negative: \<^verbatim>\<open>Next\<close> tests
  \<^verbatim>\<open>h.UnPackedSize >= 0 && !h.UnKnownSize\<close>, leaves the active reader unbounded, and every
  byte of the file is delivered.
\<close>

theorem Next_leaves_negative_size_unbounded:
  "\<not> UnKnownSize (sizedHeader (- 1)) \<and>
   map_option fst (Reader_Next plainCipher (sizedArchive (- 1))) =
     Some (Inr (FileHeader.truncate (sizedHeader (- 1)))) \<and>
   rd_r (afterNext plainCipher (sizedArchive (- 1))) = Src PackedRef \<and>
   bound_of (rd_r (afterNext plainCipher (sizedArchive (- 1)))) = None \<and>
   fst (Reader_Read plainCipher (afterNext plainCipher (sizedArchive (- 1))) 8) = ([1, 2, 3], None)"
  by (simp add: example_defs)

text \<open>
  Claim C5, amended. Let the pending stream, if any, be drained without error, let the
  walker hand out the record \<open>h\<close> with the unknown-size flag clear and an unpacked size that
  is not negative, and let the decoder of \<open>h\<close>, if it names one, accept the initialisation.
  Then \<^verbatim>\<open>Next\<close> succeeds and the active reader is the bounded reader over the reader built so
  far (the decode stream, or the walker with or without the decrypt layer), with the
  declared size as limit and the short-file error as designated error, inside the checksum
  tee when \<open>h\<close> has a sink. Reading the file to exhaustion then returns, never delivers more
  than the declared size, and ends with plain end-of-stream only when it has delivered
  exactly that size. And whenever the reader under a bounded reader with the short-file
  error reports end-of-stream while less than the remaining limit has been delivered, the
  bounded reader returns the short-file error.
\<close>

theorem Next_bounds_known_size:
  assumes "drain_pending ci R = Some (None, R1)"
    and "packed_next (rd_pr R1) = (Inr h, f)"
    and "\<forall>dec. decoder h = Some dec \<longrightarrow> dec_initErr dec (winSize h) (\<not> solid h) = None"
    and "\<not> UnKnownSize h" and "0 \<le> UnPackedSize h"
  shows "\<exists>R' inner. Reader_Next ci R = Some (Inr (FileHeader.truncate h), R') \<and>
     inner = (if decoder h = None
              then Src (if length (key h) > 0 \<and> length (iv h) > 0
                        then newAesDecryptReader PackedRef (key h) (iv h) else PackedRef)
              else DecodeRef) \<and>
     rd_r R' = (if cksum h = None
                then Limited (limitReader inner (UnPackedSize h) errShortFile)
                else TeeReader (Limited (limitReader inner (UnPackedSize h) errShortFile))) \<and>
     (\<forall>k. 0 < k \<longrightarrow>
        (\<exists>out e R''. readAll (Reader_Read ci) k R' [] = Some ((out, e), R'') \<and>
           int (length out) \<le> UnPackedSize h \<and>
           (e = EOF \<longrightarrow> int (length out) = UnPackedSize h))) \<and>
     (\<forall>r n k S bs r' S1.
        0 < n \<and> int (length bs) < n \<and>
        reader_Read ci r (if int k > n then nat n else k) S = ((bs, Some EOF), r', S1) \<longrightarrow>
        reader_Read ci (Limited (limitReader r n errShortFile)) k S =
          ((bs, Some errShortFile), Limited (limitReader r' (n - int (length bs)) errShortFile), S1))"
proof -
  define inner where "inner = (if decoder h = None
              then Src (if length (key h) > 0 \<and> length (iv h) > 0
                        then newAesDecryptReader PackedRef (key h) (iv h) else PackedRef)
              else DecodeRef)"
  have "\<exists>R'. Reader_Next ci R = Some (Inr (FileHeader.truncate h), R') \<and>
     rd_r R' = (if cksum h = None
                then Limited (limitReader inner (UnPackedSize h) errShortFile)
                else TeeReader (Limited (limitReader inner (UnPackedSize h) errShortFile)))"
    using assms unfolding inner_def
    by (cases "decoder h") (auto simp: Reader_Next_def Next_advance_def decode_init_def Let_def)
  then obtain R' where nx: "Reader_Next ci R = Some (Inr (FileHeader.truncate h), R')"
    and rr: "rd_r R' = (if cksum h = None
                then Limited (limitReader inner (UnPackedSize h) errShortFile)
                else TeeReader (Limited (limitReader inner (UnPackedSize h) errShortFile)))"
    by blast
  have bnd: "bound_of (rd_r R') = Some (UnPackedSize h, errShortFile)"
    using rr by (simp add: limitReader_def)
  have cap: "\<exists>out e R''. readAll (Reader_Read ci) k R' [] = Some ((out, e), R'') \<and>
           int (length out) \<le> UnPackedSize h \<and>
           (e = EOF \<longrightarrow> int (length out) = UnPackedSize h)" if k: "0 < k" for k
  proof -
    from Reader_readAll_returns [OF k, of ci R' "[]"]
    obtain out e R'' where ra: "readAll (Reader_Read ci) k R' [] = Some ((out, e), R'')"
      by (metis prod.exhaust)
    from Reader_readAll_bound [OF k ra bnd assms(5)] ra show ?thesis by auto
  qed
  have short: "reader_Read ci (Limited (limitReader r n errShortFile)) k S =
          ((bs, Some errShortFile), Limited (limitReader r' (n - int (length bs)) errShortFile), S1)"
    if "0 < n \<and> int (length bs) < n \<and>
        reader_Read ci r (if int k > n then nat n else k) S = ((bs, Some EOF), r', S1)"
    for r n k S bs r' S1
  proof -
    from that have a: "0 < n" and b: "int (length bs) < n"
      and c: "reader_Read ci r (if int k > n then nat n else k) S = ((bs, Some EOF), r', S1)"
      by simp_all
    from limited_short [OF a c b] show ?thesis .
  qed
  show ?thesis
  proof (intro exI conjI)
    show "Reader_Next ci R = Some (Inr (FileHeader.truncate h), R')" by (rule nx)
    show "inner = (if decoder h = None
              then Src (if length (key h) > 0 \<and> length (iv h) > 0
                        then newAesDecryptReader PackedRef (key h) (iv h) else PackedRef)
              else DecodeRef)" by (rule inner_def)
    show "rd_r R' = (if cksum h = None
                then Limited (limitReader inner (UnPackedSize h) errShortFile)
                else TeeReader (Limited (limitReader inner (UnPackedSize h) errShortFile)))"
      by (rule rr)
    show "\<forall>k. 0 < k \<longrightarrow>
        (\<exists>out e R''. readAll (Reader_Read ci) k R' [] = Some ((out, e), R'') \<and>
           int (length out) \<le> UnPackedSize h \<and>
           (e = EOF \<longrightarrow> int (length out) = UnPackedSize h))"
      using cap by (intro allI impI)
    show "\<forall>r n k S bs r' S1.
        0 < n \<and> int (length bs) < n \<and>
        reader_Read ci r (if int k > n then nat n else k) S = ((bs, Some EOF), r', S1) \<longrightarrow>
        reader_Read ci (Limited (limitReader r n errShortFile)) k S =
          ((bs, Some errShortFile), Limited (limitReader r' (n - int (length bs)) errShortFile), S1)"
      using short by (intro allI impI)
  qed
qed

theorem Next_bounds_known_size_witness:
  "drain_pending plainCipher (sizedArchive 2) = Some (None, sizedArchive 2) \<and>
   \<not> UnKnownSize (sizedHeader 2) \<and> 0 \<le> UnPackedSize (sizedHeader 2) \<and>
   rd_r (afterNext plainCipher (sizedArchive 2)) =
     Limited (limitReader (Src PackedRef) 2 errShortFile) \<and>
   (\<exists>fin. readAll (Reader_Read plainCipher) 8 (afterNext plainCipher (sizedArchive 2)) [] =
      Some (([1, 2], EOF), fin))"
proof -
  have a: "drain_pending plainCipher (sizedArchive 2) = Some (None, sizedArchive 2)"
    by (simp add: example_defs)
  have b: "packed_next (rd_pr (sizedArchive 2)) =
      (Inr (sizedHeader 2), \<lparr>pf_r = blockSource [1, 2, 3] [], pf_h = Some (sizedHeader 2)\<rparr>)"
    by (simp add: example_defs)
  have c: "\<forall>dec. decoder (sizedHeader 2) = Some dec \<longrightarrow>
      dec_initErr dec (winSize (sizedHeader 2)) (\<not> solid (sizedHeader 2)) = None"
    by (simp add: example_defs)
  have d: "\<not> UnKnownSize (sizedHeader 2)" "0 \<le> UnPackedSize (sizedHeader 2)"
    by (simp_all add: example_defs)
  from Next_bounds_known_size [OF a b c d]
  obtain R' where nx: "Reader_Next plainCipher (sizedArchive 2) =
      Some (Inr (FileHeader.truncate (sizedHeader 2)), R')"
    and r: "rd_r R' = (if cksum (sizedHeader 2) = None
                then Limited (limitReader (Src PackedRef) 2 errShortFile)
                else TeeReader (Limited (limitReader (Src PackedRef) 2 errShortFile)))"
    by (auto simp: sizedHeader_def blockHeader_def)
  have an: "afterNext plainCipher (sizedArchive 2) = R'"
    by (simp add: afterNext_def nx)
  have e: "\<exists>fin. readAll (Reader_Read plainCipher) 8 (afterNext plainCipher (sizedArchive 2)) [] =
      Some (([1, 2], EOF), fin)"
    by (simp add: example_defs)
  have "rd_r (afterNext plainCipher (sizedArchive 2)) =
     Limited (limitReader (Src PackedRef) 2 errShortFile)"
    using an r by (simp add: sizedHeader_def blockHeader_def)
  with a d e show ?thesis by blast
qed

end
